theory Spec2Isabelle
  imports Complex_Main
begin

section \<open>Strings and character classes\<close>

text \<open>
  A JavaScript string is a sequence of UTF-16 code units. The model uses \<open>string\<close>
  (\<open>char list\<close>), that is the strings whose code units are below 256; on these,
  \<open>length\<close> is JavaScript's \<open>.length\<close>. The character classes are those of the
  regular expressions in \<open>tokenizer.ts\<close>, restricted to that range.
\<close>

definition code :: "char \<Rightarrow> nat" where
  "code c = of_char c"

text \<open>\<open>[A-Z]\<close>\<close>
definition isUpper :: "char \<Rightarrow> bool" where
  "isUpper c = (65 \<le> code c \<and> code c \<le> 90)"

text \<open>\<open>[a-z]\<close>\<close>
definition isLower :: "char \<Rightarrow> bool" where
  "isLower c = (97 \<le> code c \<and> code c \<le> 122)"

text \<open>\<open>\w\<close>, which is \<open>[A-Za-z0-9_]\<close>\<close>
definition isWordChar :: "char \<Rightarrow> bool" where
  "isWordChar c = (isUpper c \<or> isLower c \<or> (48 \<le> code c \<and> code c \<le> 57) \<or> code c = 95)"

text \<open>\<open>\s\<close> and the characters removed by \<open>trim()\<close>: tab, line feed, vertical tab,
  form feed, carriage return, space and no-break space.\<close>
definition isSpace :: "char \<Rightarrow> bool" where
  "isSpace c = ((9 \<le> code c \<and> code c \<le> 13) \<or> code c = 32 \<or> code c = 160)"

text \<open>\<open>String.prototype.trim\<close>\<close>
definition trim :: "string \<Rightarrow> string" where
  "trim s = rev (dropWhile isSpace (rev (dropWhile isSpace s)))"

text \<open>\<open>String.prototype.toLowerCase\<close> on one code unit below 256: the ASCII capitals
  and the Latin-1 capitals (all of 192..222 but the multiplication sign 215) move up by 32.\<close>
definition lowerChar :: "char \<Rightarrow> char" where
  "lowerChar c =
     (if isUpper c \<or> (192 \<le> code c \<and> code c \<le> 222 \<and> code c \<noteq> 215)
      then char_of (code c + 32) else c)"

definition toLowerCase :: "string \<Rightarrow> string" where
  "toLowerCase s = map lowerChar s"

text \<open>\<open>String.prototype.endsWith\<close>\<close>
definition endsWith :: "string \<Rightarrow> string \<Rightarrow> bool" where
  "endsWith w suf = (length suf \<le> length w \<and> drop (length w - length suf) w = suf)"

text \<open>\<open>word.slice(0, -k)\<close>\<close>
definition dropLast :: "nat \<Rightarrow> string \<Rightarrow> string" where
  "dropLast k w = take (length w - k) w"

text \<open>\<open>String.prototype.split\<close> with a one-character string separator: a string with
  \<open>k\<close> separators gives \<open>k + 1\<close> parts, empty ones included.\<close>
fun splitOn :: "char \<Rightarrow> string \<Rightarrow> string list" where
  "splitOn c [] = [[]]"
| "splitOn c (x # xs) =
     (if x = c then [] # splitOn c xs
      else (case splitOn c xs of [] \<Rightarrow> [[x]] | p # ps \<Rightarrow> (x # p) # ps))"

text \<open>\<open>Array.prototype.join\<close>\<close>
fun joinWith :: "string \<Rightarrow> string list \<Rightarrow> string" where
  "joinWith sep [] = []"
| "joinWith sep [p] = p"
| "joinWith sep (p # q # ps) = p @ sep @ joinWith sep (q # ps)"

text \<open>\<open>/[aeiou]/.test(stem)\<close>\<close>
definition hasVowel :: "string \<Rightarrow> bool" where
  "hasVowel stem = list_ex (\<lambda>c. c \<in> set ''aeiou'') stem"

section \<open>Regular-expression helpers of the tokenizer\<close>

text \<open>
  \<open>s.replace(/pat/g, repl)\<close> for a literal, non-empty pattern: the matches are taken
  from the left and do not overlap.
\<close>
fun replaceAll :: "string \<Rightarrow> string \<Rightarrow> string \<Rightarrow> string" where
  "replaceAll pat repl [] = []"
| "replaceAll pat repl (c # cs) =
     (if pat \<noteq> [] \<and> take (length pat) (c # cs) = pat
      then repl @ replaceAll pat repl (drop (length pat - 1) cs)
      else c # replaceAll pat repl cs)"

text \<open>
  A pattern of lower-case letters and apostrophes under the flag \<open>i\<close>: each code unit
  of the input is compared after lower-casing.
\<close>
fun prefixCI :: "string \<Rightarrow> string \<Rightarrow> bool" where
  "prefixCI [] s = True"
| "prefixCI (p # ps) [] = False"
| "prefixCI (p # ps) (c # cs) = (lowerChar c = p \<and> prefixCI ps cs)"

text \<open>\<open>\b\<close> right after a word character: the input ends or a non-word character follows.\<close>
definition wordEnd :: "string \<Rightarrow> bool" where
  "wordEnd rest = (case rest of [] \<Rightarrow> True | c # _ \<Rightarrow> \<not> isWordChar c)"

text \<open>\<open>s.replace(/pat\b/gi, repl)\<close>, for the contraction patterns of \<open>tokenizeWords\<close>
  (each ends in a letter).\<close>
fun replaceContraction :: "string \<Rightarrow> string \<Rightarrow> string \<Rightarrow> string" where
  "replaceContraction pat repl [] = []"
| "replaceContraction pat repl (c # cs) =
     (if pat \<noteq> [] \<and> prefixCI pat (c # cs) \<and> wordEnd (drop (length pat - 1) cs)
      then repl @ replaceContraction pat repl (drop (length pat - 1) cs)
      else c # replaceContraction pat repl cs)"

text \<open>
  \<open>s.split(/x+/)\<close> for a character class \<open>x\<close>: every maximal run of separator
  characters ends a piece; a run at the start or at the end leaves an empty piece there,
  and the empty string gives one empty piece.
\<close>
function splitRuns :: "(char \<Rightarrow> bool) \<Rightarrow> string \<Rightarrow> string \<Rightarrow> string list" where
  "splitRuns sep cur [] = [cur]"
| "splitRuns sep cur (c # cs) =
     (if sep c then cur # splitRuns sep [] (dropWhile sep cs)
      else splitRuns sep (cur @ [c]) cs)"
  by pat_completeness auto
termination
  by (relation "measure (\<lambda>(sep, cur, s). length s)")
     (auto simp: length_dropWhile_le less_Suc_eq_le)

text \<open>\<open>[^\w\s-]\<close> replaced by a space\<close>
definition stripPunct :: "string \<Rightarrow> string" where
  "stripPunct s =
     map (\<lambda>c. if isWordChar c \<or> isSpace c \<or> c = CHR ''-'' then c else CHR '' '') s"

text \<open>
  The first replacement of \<open>splitSentences\<close>, \<open>/([A-Z][a-z]+\.)(\s[A-Z])/g\<close> by
  \<open>'$1_PERIOD_$2'\<close>. \<open>matchAbbrev\<close> is one match attempt at the head of the input: a
  capital, the longest run of at least one lower-case letter, a period, one whitespace
  character and a capital. It returns group 1 (the period is part of it), group 2 and the
  input after the match.
\<close>
fun matchAbbrev :: "string \<Rightarrow> (string \<times> string \<times> string) option" where
  "matchAbbrev [] = None"
| "matchAbbrev (c # cs) =
     (if isUpper c \<and> takeWhile isLower cs \<noteq> [] then
        (case dropWhile isLower cs of
           d # w # v # rest \<Rightarrow>
             if d = CHR ''.'' \<and> isSpace w \<and> isUpper v
             then Some (c # takeWhile isLower cs @ [d], [w, v], rest) else None
         | _ \<Rightarrow> None)
      else None)"

lemma matchAbbrev_shorter:
  assumes "matchAbbrev s = Some (g1, g2, rest)"
  shows "length rest < length s"
proof (cases s)
  case Nil
  with assms show ?thesis by simp
next
  case (Cons c cs)
  with assms obtain d w v where "dropWhile isLower cs = d # w # v # rest"
    by (auto split: if_splits list.splits)
  then have "length rest < length (dropWhile isLower cs)" by simp
  also have "\<dots> \<le> length cs" by (rule length_dropWhile_le)
  finally show ?thesis using Cons by simp
qed

function protectAbbrev :: "string \<Rightarrow> string" where
  "protectAbbrev [] = []"
| "protectAbbrev (c # cs) =
     (case matchAbbrev (c # cs) of
        Some (g1, g2, rest) \<Rightarrow> g1 @ ''_PERIOD_'' @ g2 @ protectAbbrev rest
      | None \<Rightarrow> c # protectAbbrev cs)"
  by pat_completeness auto
termination
  by (relation "measure length")
     (auto dest: matchAbbrev_shorter simp del: matchAbbrev.simps)

text \<open>\<open>[.!?]\<close>\<close>
definition isTerminal :: "char \<Rightarrow> bool" where
  "isTerminal c = (c = CHR ''.'' \<or> c = CHR ''!'' \<or> c = CHR ''?'')"

text \<open>The lookahead \<open>(?=[A-Z"]|$)\<close>: a capital, a double quote (code 34) or the end.\<close>
definition startsSentence :: "string \<Rightarrow> bool" where
  "startsSentence rest = (case rest of [] \<Rightarrow> True | c # _ \<Rightarrow> isUpper c \<or> c = CHR 0x22)"

text \<open>
  \<open>s.split(/(?<=[.!?])\s+(?=[A-Z"]|$)/)\<close>. \<open>afterTerminal\<close> is the lookbehind: the
  character before the current position is one of \<open>.!?\<close>. A separator is a whole run of
  whitespace right after such a character, followed by what may start a sentence.
\<close>
function splitBoundary :: "bool \<Rightarrow> string \<Rightarrow> string \<Rightarrow> string list" where
  "splitBoundary afterTerminal cur [] = [cur]"
| "splitBoundary afterTerminal cur (c # cs) =
     (if afterTerminal \<and> isSpace c \<and> startsSentence (dropWhile isSpace cs)
      then cur # splitBoundary False [] (dropWhile isSpace cs)
      else splitBoundary (isTerminal c) (cur @ [c]) cs)"
  by pat_completeness auto
termination
  by (relation "measure (\<lambda>(a, cur, s). length s)")
     (auto simp: length_dropWhile_le less_Suc_eq_le)

section \<open>Tokenizer.stemWord\<close>

lemma splitOn_not_Nil: "splitOn c w \<noteq> []"
  by (induction w) (auto split: list.splits)

lemma splitOn_part_le: "p \<in> set (splitOn c w) \<Longrightarrow> length p \<le> length w"
proof (induction w arbitrary: p)
  case Nil
  then show ?case by simp
next
  case (Cons x xs)
  show ?case
  proof (cases "x = c")
    case True
    with Cons.prems have "p = [] \<or> p \<in> set (splitOn c xs)" by simp
    then show ?thesis using Cons.IH by fastforce
  next
    case False
    show ?thesis
    proof (cases "splitOn c xs")
      case Nil
      with False Cons.prems show ?thesis by simp
    next
      case (Cons q qs)
      with False Cons.prems have "p = x # q \<or> p \<in> set qs" by simp
      moreover have "length q \<le> length xs" using Cons.IH [of q] Cons by simp
      moreover have "p \<in> set qs \<Longrightarrow> length p \<le> length xs" using Cons.IH [of p] Cons by simp
      ultimately show ?thesis by auto
    qed
  qed
qed

lemma splitOn_part_less:
  "c \<in> set w \<Longrightarrow> p \<in> set (splitOn c w) \<Longrightarrow> length p < length w"
proof (induction w arbitrary: p)
  case Nil
  then show ?case by simp
next
  case (Cons x xs)
  show ?case
  proof (cases "x = c")
    case True
    with Cons.prems have "p = [] \<or> p \<in> set (splitOn c xs)" by simp
    then show ?thesis using splitOn_part_le [of p c xs] by fastforce
  next
    case False
    with Cons.prems have cin: "c \<in> set xs" by auto
    show ?thesis
    proof (cases "splitOn c xs")
      case Nil
      then show ?thesis using splitOn_not_Nil by blast
    next
      case (Cons q qs)
      with False Cons.prems have "p = x # q \<or> p \<in> set qs" by simp
      moreover have "length q < length xs" using Cons.IH [OF cin, of q] Cons by simp
      moreover have "p \<in> set qs \<Longrightarrow> length p < length xs" using Cons.IH [OF cin, of p] Cons by simp
      ultimately show ?thesis by auto
    qed
  qed
qed

text \<open>
  \<open>stemWord\<close>, lines 58 to 85 of \<open>tokenizer.ts\<close>: the hyphen case first (it recurses
  on the parts), then the length guard, then the suffix rules in the order of the source.
\<close>
function stemWord :: "string \<Rightarrow> string" where
  "stemWord word =
     (if CHR ''-'' \<in> set word
      then joinWith ''-'' (map stemWord (splitOn (CHR ''-'') word))
      else if length word \<le> 2 then word
      else if endsWith word ''ing'' \<and> length word > 5 \<and> hasVowel (dropLast 3 word)
        then dropLast 3 word
      else if endsWith word ''ed'' \<and> length word > 4 \<and> hasVowel (dropLast 2 word)
        then dropLast 2 word
      else if endsWith word ''ly'' \<and> length word > 4 then dropLast 2 word
      else if endsWith word ''ies'' \<and> length word > 4 then dropLast 3 word @ ''y''
      else if endsWith word ''es'' \<and> length word > 3 then dropLast 2 word
      else if endsWith word ''s'' \<and> \<not> endsWith word ''ss'' \<and> length word > 3
        then dropLast 1 word
      else word)"
  by pat_completeness auto
termination
  by (relation "measure length") (auto simp: splitOn_part_less)

declare stemWord.simps [simp del]

section \<open>Tokenizer.splitSentences and Tokenizer.tokenizeWords\<close>

text \<open>\<open>splitSentences\<close>, lines 14 to 20 of \<open>tokenizer.ts\<close>.\<close>
definition splitSentences :: "string \<Rightarrow> string list" where
  "splitSentences text =
     (let preprocessed = protectAbbrev text
      in filter (\<lambda>sentence. length sentence > 0)
           (map (\<lambda>s. trim (replaceAll ''_PERIOD_'' ''.'' s))
              (splitBoundary False [] preprocessed)))"

text \<open>
  \<open>tokenizeWords\<close>, lines 29 to 50. The stop-word table \<open>STOPWORDS\<close> is imported from
  \<open>stopwords.ts\<close>, which is not among the source files: it is the parameter
  \<open>stopwords\<close>.
\<close>
definition tokenizeWords :: "string set \<Rightarrow> string \<Rightarrow> bool \<Rightarrow> string list" where
  "tokenizeWords stopwords sentence removeStopwords =
     (let expanded =
            replaceContraction [CHR 0x27, CHR ''s''] []
           (replaceContraction [CHR 0x27, CHR ''m''] '' am''
           (replaceContraction [CHR 0x27, CHR ''v'', CHR ''e''] '' have''
           (replaceContraction [CHR 0x27, CHR ''r'', CHR ''e''] '' are''
           (replaceContraction [CHR 0x27, CHR ''l'', CHR ''l''] '' will''
           (replaceContraction [CHR ''n'', CHR 0x27, CHR ''t''] '' not'' sentence)))));
          words = filter (\<lambda>word. length word > 0)
                    (map trim (splitRuns isSpace [] (stripPunct (toLowerCase expanded))));
          stemmedWords = map stemWord words
      in if removeStopwords then filter (\<lambda>word. word \<notin> stopwords) stemmedWords
         else stemmedWords)"

section \<open>Numbers\<close>

text \<open>
  A JavaScript number is an IEEE 754 double. \<open>number\<close> is the reals, and every
  arithmetic operation returns its exact result rounded to the nearest real with a 53-bit
  significand, ties to the even significand (\<open>round53\<close>). The exponent is not
  bounded: there is no overflow, no subnormal range, no infinity and no NaN; the
  quantities of this program (counts of sentences and words, scores built from them) stay
  far inside the range of a double, and no division has a zero divisor (each is guarded
  in the source). \<open>Math.sqrt\<close> and \<open>Math.pow(x, 2)\<close> are taken as correctly
  rounded. \<open>Math.log\<close> is approximated by each engine in its own way (the last bit of a
  result may differ from the correctly rounded one), so it is a parameter \<open>mathLog\<close> of
  the functions that call it; \<open>flog\<close> below is the correctly rounded one. A count \<open>n\<close>
  enters arithmetic as \<open>real n\<close>.

  The argument \<open>summaryRatio\<close> of \<open>summarize\<close> is the one number that the caller chooses
  freely and that no test of the code constrains: it is a \<open>jsNumber\<close>, a finite number,
  an infinity or NaN.
\<close>

type_synonym number = real

text \<open>The integer nearest to \<open>q\<close>; half-way between two integers, the even one.\<close>
definition roundEven :: "real \<Rightarrow> int" where
  "roundEven q =
     (let m = \<lfloor>q\<rfloor> in
      if q - of_int m < 1/2 then m
      else if 1/2 < q - of_int m then m + 1
      else if even m then m else m + 1)"

text \<open>The unit in the last place of a non-zero \<open>x\<close>: with \<open>2 ^ e \<le> |x| < 2 ^ (e + 1)\<close>
  it is \<open>2 ^ (e - 52)\<close>, so that \<open>|x|\<close> is between \<open>2 ^ 52\<close> and \<open>2 ^ 53\<close> units.\<close>
definition ulp :: "real \<Rightarrow> real" where
  "ulp x = 2 powr of_int (\<lfloor>log 2 \<bar>x\<bar>\<rfloor> - 52)"

text \<open>Rounding to nearest, ties to even, with 53 bits of significand.\<close>
definition round53 :: "real \<Rightarrow> number" where
  "round53 x = (if x = 0 then 0 else sgn x * of_int (roundEven (\<bar>x\<bar> / ulp x)) * ulp x)"

text \<open>The operations on numbers, and a decimal literal \<open>d\<close> of the source as \<open>round53 d\<close>.\<close>

definition fadd :: "number \<Rightarrow> number \<Rightarrow> number" where
  "fadd a b = round53 (a + b)"

definition fsub :: "number \<Rightarrow> number \<Rightarrow> number" where
  "fsub a b = round53 (a - b)"

definition fmul :: "number \<Rightarrow> number \<Rightarrow> number" where
  "fmul a b = round53 (a * b)"

definition fdiv :: "number \<Rightarrow> number \<Rightarrow> number" where
  "fdiv a b = round53 (a / b)"

definition fsqrt :: "number \<Rightarrow> number" where
  "fsqrt a = round53 (sqrt a)"

text \<open>The correctly rounded logarithm, one possible \<open>Math.log\<close>.\<close>
definition flog :: "number \<Rightarrow> number" where
  "flog a = round53 (ln a)"

text \<open>A number that may also be an infinity or NaN: the argument \<open>summaryRatio\<close>.\<close>
datatype jsNumber = Finite number | PosInfinity | NegInfinity | NaN

text \<open>A number that is an integer, \<open>+Infinity\<close> or NaN: the value of \<open>sentenceCount\<close>
  in \<open>summarize\<close>.\<close>
datatype jsInteger = Integer int | PlusInfinity | NotANumber

section \<open>TextRank\<close>

definition DAMPING :: number where
  "DAMPING = round53 0.85"

definition MAX_ITERATIONS :: nat where
  "MAX_ITERATIONS = 50"

definition CONVERGENCE_THRESHOLD :: number where
  "CONVERGENCE_THRESHOLD = round53 0.0001"

text \<open>\<open>calculateSimilarity\<close>, lines 24 to 33 of \<open>textrank.ts\<close>. A \<open>Set\<close> of words is
  a finite set, its \<open>size\<close> is \<open>card\<close>.\<close>
definition calculateSimilarity :: "string set \<Rightarrow> string \<Rightarrow> string \<Rightarrow> number" where
  "calculateSimilarity stopwords sentence1 sentence2 =
     (let words1 = set (tokenizeWords stopwords sentence1 True);
          words2 = set (tokenizeWords stopwords sentence2 True)
      in if card words1 = 0 \<or> card words2 = 0 then 0
         else
           (let intersection = Set.filter (\<lambda>word. word \<in> words2) words1
            in fdiv (real (card intersection))
                 (fmul (fsqrt (real (card words1))) (fsqrt (real (card words2))))))"

text \<open>\<open>buildSimilarityMatrix\<close>, lines 41 to 52: the diagonal stays 0.\<close>
definition buildSimilarityMatrix :: "string set \<Rightarrow> string list \<Rightarrow> number list list" where
  "buildSimilarityMatrix stopwords sentences =
     (let n = length sentences
      in map (\<lambda>i. map (\<lambda>j. if i \<noteq> j
                              then calculateSimilarity stopwords (sentences ! i) (sentences ! j)
                              else 0) [0..<n]) [0..<n])"

text \<open>Lines 67 to 70: each row divided by its sum, or made uniform when the sum is 0.\<close>
definition normalizeRow :: "nat \<Rightarrow> number list \<Rightarrow> number list" where
  "normalizeRow n row =
     (let sum = foldl fadd 0 row
      in if sum = 0 then map (\<lambda>_. fdiv 1 (real n)) row else map (\<lambda>val. fdiv val sum) row)"

text \<open>Lines 79 to 86, the body of the loop over \<open>i\<close>: the sum over \<open>j \<noteq> i\<close>, then
  the teleport term.\<close>
definition newScore :: "number list list \<Rightarrow> number list \<Rightarrow> nat \<Rightarrow> nat \<Rightarrow> number" where
  "newScore normalizedMatrix scores n i =
     fadd (foldl (\<lambda>acc j. if i \<noteq> j
                            then fadd acc (fmul (fmul DAMPING (normalizedMatrix ! j ! i)) (scores ! j))
                            else acc) 0 [0..<n])
          (fdiv (fsub 1 DAMPING) (real n))"

text \<open>Lines 76 to 96, the \<open>while\<close> loop; the state is \<open>scores\<close>, \<open>iteration\<close> and
  \<open>converged\<close>. The convergence test decides only how many rounds are run.\<close>
function rankLoop :: "number list list \<Rightarrow> nat \<Rightarrow> number list \<Rightarrow> nat \<Rightarrow> bool \<Rightarrow> number list" where
  "rankLoop normalizedMatrix n scores iteration converged =
     (if \<not> converged \<and> iteration < MAX_ITERATIONS then
        (let newScores = map (newScore normalizedMatrix scores n) [0..<n];
             diff = fsqrt (foldl (\<lambda>sum idx.
                       fadd sum (fmul (fsub (scores ! idx) (newScores ! idx))
                                      (fsub (scores ! idx) (newScores ! idx))))
                     0 [0..<length scores])
         in rankLoop normalizedMatrix n newScores (iteration + 1) (diff < CONVERGENCE_THRESHOLD))
      else scores)"
  by pat_completeness auto
termination
  by (relation "measure (\<lambda>(m, n, scores, iteration, converged). MAX_ITERATIONS - iteration)")
     auto

declare rankLoop.simps [simp del]

text \<open>\<open>rankSentences\<close>, lines 60 to 99.\<close>
definition rankSentences :: "string set \<Rightarrow> string list \<Rightarrow> number list" where
  "rankSentences stopwords sentences =
     (let n = length sentences
      in if n = 0 then []
         else if n = 1 then [1]
         else
           (let similarityMatrix = buildSimilarityMatrix stopwords sentences;
                normalizedMatrix = map (normalizeRow n) similarityMatrix
            in rankLoop normalizedMatrix n (replicate n (fdiv 1 (real n))) 0 False))"

section \<open>Summarizer\<close>

text \<open>The interface \<open>SentenceWithMetadata\<close>; the fields \<open>text\<close>, \<open>paragraph\<close> and
  \<open>length\<close> carry a prime, since the names are taken.\<close>
record SentenceWithMetadata =
  index :: nat
  text' :: string
  paragraph' :: nat
  length' :: nat
  position :: number

text \<open>The \<open>options\<close> argument of \<open>summarize\<close>; a missing field is \<open>False\<close>.\<close>
record summarizeOptions =
  deduplicateSimilar :: bool
  favorPositionScore :: bool

text \<open>The one exception the code could raise: a method call on \<open>undefined\<close> (line 200,
  \<open>sentencesByParagraph.get(...)!.push\<close>).\<close>
datatype error = TypeError

subsection \<open>Arrays and maps\<close>

text \<open>
  \<open>Array.prototype.sort\<close> with a comparator: the sort is stable, and an element goes
  before another when the comparator is negative. \<open>sortBy\<close> inserts the elements from the
  right, each before the first element it does not have to follow.
\<close>
fun insertBy :: "('a \<Rightarrow> 'a \<Rightarrow> number) \<Rightarrow> 'a \<Rightarrow> 'a list \<Rightarrow> 'a list" where
  "insertBy cmp x [] = [x]"
| "insertBy cmp x (y # ys) = (if cmp x y \<le> 0 then x # y # ys else y # insertBy cmp x ys)"

definition sortBy :: "('a \<Rightarrow> 'a \<Rightarrow> number) \<Rightarrow> 'a list \<Rightarrow> 'a list" where
  "sortBy cmp xs = foldr (insertBy cmp) xs []"

text \<open>The comparator \<open>(a, b) => a.index - b.index\<close> of lines 193 and 204.\<close>
definition byIndex :: "SentenceWithMetadata \<Rightarrow> SentenceWithMetadata \<Rightarrow> number" where
  "byIndex a b = fsub (real (index a)) (real (index b))"

text \<open>\<open>xs.slice(0, e)\<close>: a negative integer \<open>e\<close> counts from the end, \<open>+Infinity\<close>
  is the length, and NaN is 0 (\<open>ToIntegerOrInfinity\<close>).\<close>
definition slice0 :: "'a list \<Rightarrow> jsInteger \<Rightarrow> 'a list" where
  "slice0 xs e =
     (let len = int (length xs);
          final = (case e of
                     Integer k \<Rightarrow> if k < 0 then max (len + k) 0 else min k len
                   | PlusInfinity \<Rightarrow> len
                   | NotANumber \<Rightarrow> min 0 len)
      in take (nat final) xs)"

text \<open>A \<open>Map\<close> whose iteration order matters is the list of its entries in insertion
  order: \<open>get\<close> is \<open>map_of\<close>, and \<open>set\<close> replaces the value of a present key in
  place or appends a new entry.\<close>
fun mapSet :: "'k \<Rightarrow> 'v \<Rightarrow> ('k \<times> 'v) list \<Rightarrow> ('k \<times> 'v) list" where
  "mapSet k v [] = [(k, v)]"
| "mapSet k v (p # ps) = (if fst p = k then (k, v) # ps else p # mapSet k v ps)"

text \<open>\<open>m.set(word, (m.get(word) || 0) + 1)\<close>\<close>
definition countWord :: "(string \<rightharpoonup> nat) \<Rightarrow> string \<Rightarrow> (string \<rightharpoonup> nat)" where
  "countWord m word = m(word \<mapsto> (case m word of None \<Rightarrow> 0 | Some c \<Rightarrow> c) + 1)"

subsection \<open>Scoring\<close>

text \<open>\<open>calculateTfIdf\<close>, lines 32 to 54 of \<open>summarizer.ts\<close>; \<open>mathLog\<close> is the
  engine's \<open>Math.log\<close>.\<close>
definition calculateTfIdf ::
  "(number \<Rightarrow> number) \<Rightarrow> string set \<Rightarrow> string list \<Rightarrow> (string \<rightharpoonup> number)" where
  "calculateTfIdf mathLog stopwords sentences =
     (let totalDocs = length sentences;
          (wordFrequency, documentFrequency) =
             foldl (\<lambda>(wf, df) sentence.
                      let words = tokenizeWords stopwords sentence True;
                          uniqueWords = remdups words
                      in (foldl countWord wf words, foldl countWord df uniqueWords))
                   (Map.empty, Map.empty) sentences
      in (\<lambda>word. case wordFrequency word of
                    None \<Rightarrow> None
                  | Some freq \<Rightarrow>
                      (let df = (case documentFrequency word of
                                   None \<Rightarrow> 1 | Some d \<Rightarrow> if d = 0 then 1 else d);
                           idf = mathLog (fdiv (real totalDocs) (real df))
                       in Some (fmul (real freq) idf))))"

text \<open>\<open>scoreSentences\<close>, lines 67 to 92: a map from \<open>index\<close> to the final score.\<close>
definition scoreSentences ::
  "string set \<Rightarrow> SentenceWithMetadata list \<Rightarrow> (string \<rightharpoonup> number) \<Rightarrow> (nat \<rightharpoonup> number)" where
  "scoreSentences stopwords sentences tfIdfScores =
     (let textRankScores = rankSentences stopwords (map text' sentences)
      in foldl (\<lambda>scores (idx, sentence).
           let words = tokenizeWords stopwords (text' sentence) True;
               tfIdfScore =
                 fdiv (foldl (\<lambda>sum word.
                          fadd sum (case tfIdfScores word of None \<Rightarrow> 0 | Some v \<Rightarrow> v)) 0 words)
                      (real (max 1 (length words)));
               textRankScore = textRankScores ! idx;
               positionScore = position sentence;
               lengthScore = min 1 (fdiv (real (length' sentence)) 10);
               finalScore =
                 fadd (fadd (fadd (fmul (round53 0.4) tfIdfScore)
                                  (fmul (round53 0.3) textRankScore))
                            (fmul (round53 0.2) positionScore))
                      (fmul (round53 0.1) lengthScore)
           in scores(index sentence \<mapsto> finalScore))
         Map.empty (enumerate 0 sentences))"

text \<open>\<open>deduplicateSentences\<close>, lines 101 to 114.\<close>
definition deduplicateSentences ::
  "string set \<Rightarrow> SentenceWithMetadata list \<Rightarrow> number \<Rightarrow> SentenceWithMetadata list" where
  "deduplicateSentences stopwords candidates similarityThreshold =
     foldl (\<lambda>result candidate.
              let isDuplicate =
                    list_ex (\<lambda>selected.
                       calculateSimilarity stopwords (text' candidate) (text' selected)
                         > similarityThreshold) result
              in if \<not> isDuplicate then result @ [candidate] else result)
           [] candidates"

subsection \<open>Segmentation\<close>

text \<open>Line 138: \<open>text.split(/\n+/).map(p => p.trim()).filter(p => p.length > 0)\<close>.\<close>
definition splitParagraphs :: "string \<Rightarrow> string list" where
  "splitParagraphs text =
     filter (\<lambda>p. length p > 0) (map trim (splitRuns (\<lambda>c. c = CHR 0x0A) [] text))"

text \<open>Lines 150 to 159: the position score of sentence \<open>localIdx\<close> of paragraph
  \<open>paragraphIdx\<close>, out of \<open>paragraphSentCount\<close> sentences and \<open>paragraphCount\<close>
  paragraphs.\<close>
definition basePositionScore :: "nat \<Rightarrow> nat \<Rightarrow> number" where
  "basePositionScore paragraphSentCount localIdx =
     (if paragraphSentCount \<le> 1 then 1
      else if localIdx = 0 then 1
      else if localIdx = paragraphSentCount - 1 then round53 0.8
      else fsub (round53 0.5)
             (fmul (round53 0.4) (fdiv (real localIdx) (real paragraphSentCount))))"

definition positionScore :: "nat \<Rightarrow> nat \<Rightarrow> nat \<Rightarrow> nat \<Rightarrow> number" where
  "positionScore paragraphCount paragraphIdx paragraphSentCount localIdx =
     (let positionScore0 = basePositionScore paragraphSentCount localIdx;
          positionScore1 =
            (if paragraphIdx = 0 then fmul positionScore0 (round53 1.2)
             else if paragraphIdx = paragraphCount - 1 then fmul positionScore0 (round53 1.1)
             else positionScore0)
      in max 0 (min 1 positionScore1))"

text \<open>Lines 146 to 170, the inner \<open>forEach\<close>: the sentences of one paragraph, numbered
  from \<open>globalIndex\<close>.\<close>
definition paragraphMetadata ::
  "string set \<Rightarrow> summarizeOptions \<Rightarrow> nat \<Rightarrow> nat \<Rightarrow> nat \<Rightarrow> string \<Rightarrow> SentenceWithMetadata list" where
  "paragraphMetadata stopwords opts paragraphCount paragraphIdx globalIndex para =
     (let sentences = splitSentences para;
          paragraphSentCount = length sentences
      in map (\<lambda>(localIdx, sentenceText).
                \<lparr> index = globalIndex + localIdx,
                  text' = sentenceText,
                  paragraph' = paragraphIdx,
                  length' = length (tokenizeWords stopwords sentenceText False),
                  position = (if favorPositionScore opts
                              then positionScore paragraphCount paragraphIdx paragraphSentCount localIdx
                              else 0.5) \<rparr>)
             (enumerate 0 sentences))"

text \<open>Lines 145 to 171, the outer \<open>forEach\<close> over the paragraphs.\<close>
fun collectMetadata ::
  "string set \<Rightarrow> summarizeOptions \<Rightarrow> nat \<Rightarrow> nat \<Rightarrow> nat \<Rightarrow> string list \<Rightarrow> SentenceWithMetadata list" where
  "collectMetadata stopwords opts paragraphCount paragraphIdx globalIndex [] = []"
| "collectMetadata stopwords opts paragraphCount paragraphIdx globalIndex (p # ps) =
     (let here = paragraphMetadata stopwords opts paragraphCount paragraphIdx globalIndex p
      in here @ collectMetadata stopwords opts paragraphCount (paragraphIdx + 1)
                  (globalIndex + length here) ps)"

subsection \<open>Selection and assembly\<close>

text \<open>Lines 179 to 181. \<open>maxSentences\<close> is an optional integer, as the spec types it;
  the test \<open>maxSentences ? ... : ...\<close> takes a missing value and 0 the same way. In the other
  branch \<open>Math.max(1, Math.floor(total * summaryRatio))\<close> is NaN when \<open>summaryRatio\<close> is
  NaN, \<open>+Infinity\<close> or 1 when it is an infinity (NaN again when \<open>total\<close> is 0), and an
  integer otherwise. (A finite product too large for a double would be an infinity; here
  it is a large integer, and \<open>slice\<close> takes both the same way.)\<close>
definition sentenceCount :: "nat \<Rightarrow> jsNumber \<Rightarrow> int option \<Rightarrow> jsInteger" where
  "sentenceCount totalSentences summaryRatio maxSentences =
     (let byRatio =
            (case summaryRatio of
               Finite r \<Rightarrow> Integer (max 1 \<lfloor>fmul (real totalSentences) r\<rfloor>)
             | PosInfinity \<Rightarrow> if totalSentences = 0 then NotANumber else PlusInfinity
             | NegInfinity \<Rightarrow> if totalSentences = 0 then NotANumber else Integer 1
             | NaN \<Rightarrow> NotANumber)
      in case maxSentences of
           Some m \<Rightarrow> if m \<noteq> 0 then Integer (min m (int totalSentences)) else byRatio
         | None \<Rightarrow> byRatio)"

text \<open>\<open>sentenceCount * 2\<close> of line 186.\<close>
definition timesTwo :: "jsInteger \<Rightarrow> jsInteger" where
  "timesTwo c = (case c of Integer k \<Rightarrow> Integer (k * 2)
                 | PlusInfinity \<Rightarrow> PlusInfinity
                 | NotANumber \<Rightarrow> NotANumber)"

text \<open>Lines 175 to 193: the scores, the count, the top sentences, the optional
  deduplication, and the final sort by \<open>index\<close>.\<close>
definition selectSentences ::
  "(number \<Rightarrow> number) \<Rightarrow> string set \<Rightarrow> SentenceWithMetadata list \<Rightarrow> jsNumber \<Rightarrow> int option
   \<Rightarrow> summarizeOptions \<Rightarrow> SentenceWithMetadata list" where
  "selectSentences mathLog stopwords sentencesWithMetadata summaryRatio maxSentences opts =
     (let tfIdfScores = calculateTfIdf mathLog stopwords (map text' sentencesWithMetadata);
          sentenceScores = scoreSentences stopwords sentencesWithMetadata tfIdfScores;
          count = sentenceCount (length sentencesWithMetadata) summaryRatio maxSentences;
          scored = map (\<lambda>s. (s, case sentenceScores (index s) of None \<Rightarrow> 0 | Some v \<Rightarrow> v))
                     sentencesWithMetadata;
          topSentences =
            map fst (slice0 (sortBy (\<lambda>a b. fsub (snd b) (snd a)) scored)
                       (if deduplicateSimilar opts then timesTwo count else count));
          selectedSentences =
            (if deduplicateSimilar opts
             then slice0 (deduplicateSentences stopwords topSentences (round53 0.6)) count
             else topSentences)
      in sortBy byIndex selectedSentences)"

text \<open>Lines 198 to 201: the selected sentences grouped by paragraph, in a \<open>Map\<close>.\<close>
fun groupByParagraph ::
  "(nat \<times> SentenceWithMetadata list) list \<Rightarrow> SentenceWithMetadata list
   \<Rightarrow> error + (nat \<times> SentenceWithMetadata list) list" where
  "groupByParagraph sentencesByParagraph [] = Inr sentencesByParagraph"
| "groupByParagraph sentencesByParagraph (sentence # rest) =
     (let m = (if map_of sentencesByParagraph (paragraph' sentence) = None
               then mapSet (paragraph' sentence) [] sentencesByParagraph
               else sentencesByParagraph)
      in case map_of m (paragraph' sentence) of
           None \<Rightarrow> Inl TypeError
         | Some sentences \<Rightarrow>
             groupByParagraph (mapSet (paragraph' sentence) (sentences @ [sentence]) m) rest)"

text \<open>Lines 203 to 211: one line per paragraph of the map, in its iteration order.\<close>
definition assemble :: "(nat \<times> SentenceWithMetadata list) list \<Rightarrow> string" where
  "assemble sentencesByParagraph =
     joinWith [CHR 0x0A, CHR 0x0A]
       (filter (\<lambda>paragraphSummary. paragraphSummary \<noteq> [])
          (map (\<lambda>(paragraphIdx, sentences). joinWith '' '' (map text' (sortBy byIndex sentences)))
             sentencesByParagraph))"

text \<open>\<open>summarize\<close>, lines 127 to 212. The default of \<open>summaryRatio\<close> is the caller's
  (\<open>Finite (round53 0.3)\<close>).\<close>
definition summarize ::
  "(number \<Rightarrow> number) \<Rightarrow> string set \<Rightarrow> string \<Rightarrow> jsNumber \<Rightarrow> int option \<Rightarrow> summarizeOptions
   \<Rightarrow> error + string" where
  "summarize mathLog stopwords text summaryRatio maxSentences opts =
     (if text = [] then Inr []
      else
        (let paragraphs = splitParagraphs text
         in if length paragraphs = 0 then Inr []
            else
              (let sentencesWithMetadata =
                     collectMetadata stopwords opts (length paragraphs) 0 0 paragraphs
               in if length sentencesWithMetadata \<le> 1 then Inr text
                  else
                    (case groupByParagraph []
                            (selectSentences mathLog stopwords sentencesWithMetadata
                               summaryRatio maxSentences opts) of
                       Inl e \<Rightarrow> Inl e
                     | Inr sentencesByParagraph \<Rightarrow> Inr (assemble sentencesByParagraph)))))"

subsection \<open>Names for the statements\<close>

text \<open>The teleport term of line 85, \<open>(1 - DAMPING) / n\<close>.\<close>
definition teleport :: "nat \<Rightarrow> number" where
  "teleport n = fdiv (fsub 1 DAMPING) (real n)"

text \<open>The array \<open>sentencesWithMetadata\<close> of \<open>summarize\<close> once the loop of lines 145 to
  171 is over.\<close>
definition documentSentences :: "string set \<Rightarrow> summarizeOptions \<Rightarrow> string \<Rightarrow> SentenceWithMetadata list" where
  "documentSentences stopwords opts text =
     collectMetadata stopwords opts (length (splitParagraphs text)) 0 0 (splitParagraphs text)"

text \<open>What the grouping keeps true of the map: the keys ascend strictly, no group is empty,
  and a group holds sentences of its own paragraph only.\<close>
definition groupsOk :: "(nat \<times> SentenceWithMetadata list) list \<Rightarrow> bool" where
  "groupsOk groups =
     (sorted_wrt (<) (map fst groups)
      \<and> list_all (\<lambda>(k, ss). ss \<noteq> [] \<and> list_all (\<lambda>s. paragraph' s = k) ss) groups)"

text \<open>
  The ranking as the spec describes it (section 4.2), to compare with the loop of
  \<open>rankSentences\<close>. The weight of the edge from sentence \<open>j\<close> to sentence \<open>i\<close> is
  the similarity of the two sentences divided by the sum of the similarities of sentence
  \<open>j\<close> to the other sentences, or \<open>1/N\<close> when that sum is 0. The score of every
  sentence is \<open>1/N\<close> before the first round, and a round gives sentence \<open>i\<close> the sum
  over \<open>j \<noteq> i\<close> of \<open>damping * weight(j, i) * score(j)\<close>, plus \<open>(1 - damping)/N\<close>;
  the sums are taken in ascending order of \<open>j\<close>.
\<close>
definition edgeWeight :: "string set \<Rightarrow> string list \<Rightarrow> nat \<Rightarrow> nat \<Rightarrow> number" where
  "edgeWeight stopwords sentences j i =
     (let n = length sentences;
          similarities =
            map (\<lambda>k. if j \<noteq> k then calculateSimilarity stopwords (sentences ! j) (sentences ! k)
                      else 0) [0..<n];
          sum = foldl fadd 0 similarities
      in if sum = 0 then fdiv 1 (real n)
         else fdiv (if j \<noteq> i then calculateSimilarity stopwords (sentences ! j) (sentences ! i)
                    else 0) sum)"

fun scoreAfter :: "string set \<Rightarrow> string list \<Rightarrow> nat \<Rightarrow> nat \<Rightarrow> number" where
  "scoreAfter stopwords sentences 0 i = fdiv 1 (real (length sentences))"
| "scoreAfter stopwords sentences (Suc k) i =
     fadd (foldl (\<lambda>acc j. if i \<noteq> j
                            then fadd acc (fmul (fmul DAMPING (edgeWeight stopwords sentences j i))
                                                (scoreAfter stopwords sentences k j))
                            else acc) 0 [0..<length sentences])
          (fdiv (fsub 1 DAMPING) (real (length sentences)))"

text \<open>
  The output as the spec describes it (section 4.3, step 6, and the scenario of section 8): the
  texts of the sentences in the order given, two sentences of one paragraph joined by a
  space and two sentences of different paragraphs by a blank line.
\<close>
fun inDocumentOrder :: "SentenceWithMetadata list \<Rightarrow> string" where
  "inDocumentOrder [] = []"
| "inDocumentOrder [s] = text' s"
| "inDocumentOrder (s # t # rest) =
     text' s @ (if paragraph' s = paragraph' t then '' '' else [CHR 0x0A, CHR 0x0A])
       @ inDocumentOrder (t # rest)"

section \<open>Properties of the tokenizer\<close>

lemma stemWord_plain:
  "CHR ''-'' \<notin> set word \<Longrightarrow>
   stemWord word =
     (if length word \<le> 2 then word
      else if endsWith word ''ing'' \<and> length word > 5 \<and> hasVowel (dropLast 3 word)
        then dropLast 3 word
      else if endsWith word ''ed'' \<and> length word > 4 \<and> hasVowel (dropLast 2 word)
        then dropLast 2 word
      else if endsWith word ''ly'' \<and> length word > 4 then dropLast 2 word
      else if endsWith word ''ies'' \<and> length word > 4 then dropLast 3 word @ ''y''
      else if endsWith word ''es'' \<and> length word > 3 then dropLast 2 word
      else if endsWith word ''s'' \<and> \<not> endsWith word ''ss'' \<and> length word > 3
        then dropLast 1 word
      else word)"
  by (subst stemWord.simps) simp

lemma stemWord_hyphen:
  "CHR ''-'' \<in> set word \<Longrightarrow>
   stemWord word = joinWith ''-'' (map stemWord (splitOn (CHR ''-'') word))"
  by (subst stemWord.simps) simp

text \<open>
  C5 (as amended). The rules are tried in the order of the source and the first one that
  applies decides: for a word without a hyphen, \<open>stemWord\<close> is the cascade below, so a
  word of more than five characters that ends in "ing" and whose stem has a vowel loses
  exactly the "ing"; "running" gives "runn". The hyphen rule comes before all of them,
  which is why the word must have no hyphen.
\<close>
theorem stemWord_ing_rule:
  assumes "CHR ''-'' \<notin> set word"
  shows "stemWord word =
     (if length word \<le> 2 then word
      else if endsWith word ''ing'' \<and> length word > 5 \<and> hasVowel (dropLast 3 word)
        then dropLast 3 word
      else if endsWith word ''ed'' \<and> length word > 4 \<and> hasVowel (dropLast 2 word)
        then dropLast 2 word
      else if endsWith word ''ly'' \<and> length word > 4 then dropLast 2 word
      else if endsWith word ''ies'' \<and> length word > 4 then dropLast 3 word @ ''y''
      else if endsWith word ''es'' \<and> length word > 3 then dropLast 2 word
      else if endsWith word ''s'' \<and> \<not> endsWith word ''ss'' \<and> length word > 3
        then dropLast 1 word
      else word)
    \<and> (endsWith word ''ing'' \<and> length word > 5 \<and> hasVowel (dropLast 3 word)
          \<longrightarrow> stemWord word = dropLast 3 word)"
  using assms by (simp add: stemWord_plain)

theorem stemWord_ing_rule_witness:
  "CHR ''-'' \<notin> set ''running'' \<and> endsWith ''running'' ''ing'' \<and> length ''running'' > 5
   \<and> hasVowel (dropLast 3 ''running'') \<and> stemWord ''running'' = ''runn''"
proof -
  have h: "CHR ''-'' \<notin> set ''running''" by simp
  have c: "endsWith ''running'' ''ing'' \<and> length ''running'' > 5
           \<and> hasVowel (dropLast 3 ''running'')"
    by (simp add: endsWith_def dropLast_def hasVowel_def)
  have "stemWord ''running'' = dropLast 3 ''running''"
    using stemWord_ing_rule [OF h] c by blast
  then show ?thesis using h c by (simp add: dropLast_def)
qed

text \<open>
  C5 as it is written speaks of every word ending in "ing". The word "a-bcing"
  (seven characters, stem "a-bc" with a vowel) has a hyphen: its parts "a" and "bcing"
  are stemmed on their own, "bcing" is too short for the "ing" rule, and the word comes
  back whole.
\<close>
theorem stemWord_ing_hyphen_counterexample:
  "endsWith ''a-bcing'' ''ing'' \<and> length ''a-bcing'' > 5 \<and> hasVowel (dropLast 3 ''a-bcing'')
   \<and> stemWord ''a-bcing'' = ''a-bcing'' \<and> stemWord ''a-bcing'' \<noteq> dropLast 3 ''a-bcing''"
proof -
  have a: "stemWord ''a'' = ''a''" by (simp add: stemWord_plain)
  have b: "stemWord ''bcing'' = ''bcing''"
    by (simp add: stemWord_plain endsWith_def)
  have "stemWord ''a-bcing'' = joinWith ''-'' (map stemWord (splitOn (CHR ''-'') ''a-bcing''))"
    by (rule stemWord_hyphen) simp
  then have "stemWord ''a-bcing'' = ''a-bcing''" by (simp add: a b)
  then show ?thesis by (simp add: endsWith_def dropLast_def hasVowel_def)
qed

text \<open>
  C1. The first replacement keeps the period of the abbreviation (it is part of group 1)
  and puts the marker after it; the restoration then turns the marker into a second
  period. On "Dr. Smith went home." the single sentence returned is one character longer
  than the input, so it is no segment of it.
\<close>
theorem splitSentences_doubles_period:
  "protectAbbrev ''Dr. Smith went home.'' = ''Dr._PERIOD_ Smith went home.''
   \<and> splitSentences ''Dr. Smith went home.'' = [''Dr.. Smith went home.'']
   \<and> length ''Dr.. Smith went home.'' = Suc (length ''Dr. Smith went home.'')"
  by (simp add: splitSentences_def trim_def isUpper_def isLower_def isSpace_def code_def
        isTerminal_def startsSentence_def)

text \<open>The same happens at the end of any sentence whose last word is capitalised: the
  period is doubled and the two sentences stay one.\<close>
lemma splitSentences_merges_sentences:
  "splitSentences ''I love Paris. It is nice.'' = [''I love Paris.. It is nice.'']"
  by (simp add: splitSentences_def trim_def isUpper_def isLower_def isSpace_def code_def
        isTerminal_def startsSentence_def)

text \<open>In general: where the pattern matches, group 1 ends with the period and the marker
  follows it.\<close>
lemma protectAbbrev_keeps_period:
  assumes "matchAbbrev s = Some (g1, g2, rest)"
  shows "last g1 = CHR ''.'' \<and> protectAbbrev s = g1 @ ''_PERIOD_'' @ g2 @ protectAbbrev rest"
proof (cases s)
  case Nil
  with assms show ?thesis by simp
next
  case (Cons c cs)
  from assms Cons have "last g1 = CHR ''.''"
    by (auto split: if_splits list.splits)
  moreover have "protectAbbrev s = g1 @ ''_PERIOD_'' @ g2 @ protectAbbrev rest"
    unfolding Cons using assms Cons by (simp del: matchAbbrev.simps)
  ultimately show ?thesis by simp
qed

section \<open>Properties of the rounding\<close>

lemma roundEven_bounds: "of_int (roundEven q) \<le> q + 1/2" "q - 1/2 \<le> of_int (roundEven q)"
  unfolding roundEven_def Let_def by (auto; linarith)+

lemma roundEven_of_int [simp]: "roundEven (of_int k) = k"
  by (simp add: roundEven_def)

lemma roundEven_mono: assumes "q \<le> r" shows "roundEven q \<le> roundEven r"
proof (rule ccontr)
  assume "\<not> roundEven q \<le> roundEven r"
  then have gt: "roundEven r + 1 \<le> roundEven q" by simp
  have "of_int (roundEven q) \<le> q + 1/2" "r - 1/2 \<le> of_int (roundEven r)"
    by (rule roundEven_bounds)+
  moreover from gt have "(of_int (roundEven r) :: real) + 1 \<le> of_int (roundEven q)"
    by (metis of_int_le_iff of_int_add of_int_1)
  ultimately have "q = r" using assms by linarith
  with gt show False by simp
qed

lemma roundEven_ge: "of_int k \<le> q \<Longrightarrow> k \<le> roundEven q"
  using roundEven_mono [of "of_int k" q] by simp

lemma roundEven_le: "q \<le> of_int k \<Longrightarrow> roundEven q \<le> k"
  using roundEven_mono [of q "of_int k"] by simp

lemma ulp_pos: "0 < ulp x"
  by (simp add: ulp_def)

lemma ulp_range:
  assumes "x \<noteq> 0"
  shows "2 ^ 52 \<le> \<bar>x\<bar> / ulp x" "\<bar>x\<bar> / ulp x < 2 ^ 53"
proof -
  define e where "e = \<lfloor>log 2 \<bar>x\<bar>\<rfloor>"
  have pos: "0 < \<bar>x\<bar>" using assms by simp
  have b: "2 powr of_int e \<le> \<bar>x\<bar>" "\<bar>x\<bar> < 2 powr (of_int e + 1)"
    using floor_log_eq_powr_iff [of "\<bar>x\<bar>" 2 e] pos e_def by auto
  have u: "ulp x = 2 powr of_int e / 2 ^ 52"
    by (simp add: ulp_def e_def powr_diff flip: powr_realpow)
  have p: "(0::real) < 2 powr of_int e" by simp
  show "2 ^ 52 \<le> \<bar>x\<bar> / ulp x"
    using b(1) p by (simp add: u field_simps)
  have "(2::real) powr (of_int e + 1) = 2 * 2 powr of_int e" by (simp add: powr_add)
  with b(2) have "\<bar>x\<bar> < 2 * 2 powr of_int e" by simp
  then show "\<bar>x\<bar> / ulp x < 2 ^ 53"
    using p by (simp add: u field_simps)
qed

lemma round53_0 [simp]: "round53 0 = 0"
  by (simp add: round53_def)

lemma ulp_minus [simp]: "ulp (- x) = ulp x"
  by (simp add: ulp_def)

lemma round53_minus: "round53 (- x) = - round53 x"
  by (simp add: round53_def sgn_minus)

lemma round53_pos_eq: "0 < x \<Longrightarrow> round53 x = of_int (roundEven (x / ulp x)) * ulp x"
  by (simp add: round53_def)

lemma roundEven_range:
  assumes "x \<noteq> 0"
  shows "2 ^ 52 \<le> roundEven (\<bar>x\<bar> / ulp x)" "roundEven (\<bar>x\<bar> / ulp x) \<le> 2 ^ 53"
proof -
  have "of_int (2 ^ 52) \<le> \<bar>x\<bar> / ulp x" using ulp_range(1) [OF assms] by simp
  then show "2 ^ 52 \<le> roundEven (\<bar>x\<bar> / ulp x)" by (rule roundEven_ge)
  have "\<bar>x\<bar> / ulp x \<le> of_int (2 ^ 53)" using ulp_range(2) [OF assms] by simp
  then show "roundEven (\<bar>x\<bar> / ulp x) \<le> 2 ^ 53" by (rule roundEven_le)
qed

lemma round53_pos: assumes "0 < x" shows "0 < round53 x"
proof -
  have "(0::int) < 2 ^ 52" by simp
  also have "\<dots> \<le> roundEven (\<bar>x\<bar> / ulp x)" using roundEven_range(1) [of x] assms by simp
  finally have "0 < roundEven (x / ulp x)" using assms by simp
  then show ?thesis using assms ulp_pos [of x] by (simp add: round53_pos_eq)
qed

lemma round53_nonneg: "0 \<le> x \<Longrightarrow> 0 \<le> round53 x"
  using round53_pos [of x] by (cases "x = 0") auto

text \<open>The binade of a positive number: its rounding stays between the two powers of two around it.\<close>
lemma round53_binade:
  assumes "0 < x"
  shows "2 ^ 52 * ulp x \<le> round53 x" "round53 x \<le> 2 ^ 53 * ulp x"
proof -
  have "(of_int (2 ^ 52) :: real) \<le> of_int (roundEven (\<bar>x\<bar> / ulp x))"
    using roundEven_range(1) [of x] assms by (simp only: of_int_le_iff)
  then show "2 ^ 52 * ulp x \<le> round53 x"
    using assms ulp_pos [of x] by (simp add: round53_pos_eq)
  have "(of_int (roundEven (\<bar>x\<bar> / ulp x)) :: real) \<le> of_int (2 ^ 53)"
    using roundEven_range(2) [of x] assms by (simp only: of_int_le_iff)
  then show "round53 x \<le> 2 ^ 53 * ulp x"
    using assms ulp_pos [of x] by (simp add: round53_pos_eq)
qed

lemma ulp_mono_cases:
  assumes "0 < x" "x \<le> y"
  shows "ulp x = ulp y \<or> 2 * ulp x \<le> ulp y"
proof -
  define a where "a = \<lfloor>log 2 x\<rfloor>"
  define b where "b = \<lfloor>log 2 y\<rfloor>"
  have ux: "ulp x = 2 powr (of_int a - 52)" and uy: "ulp y = 2 powr (of_int b - 52)"
    using assms by (simp_all add: ulp_def a_def b_def)
  have "log 2 x \<le> log 2 y" using assms by simp
  then have le: "a \<le> b" unfolding a_def b_def by (rule floor_mono)
  show ?thesis
  proof (cases "a = b")
    case True
    then show ?thesis by (simp add: ux uy)
  next
    case False
    with le have "a + 1 \<le> b" by simp
    then have "(of_int (a + 1) :: real) \<le> of_int b" by (simp only: of_int_le_iff)
    then have ab: "(of_int a :: real) - 52 + 1 \<le> of_int b - 52" by simp
    have "2 * ulp x = 2 powr (of_int a - 52 + 1)"
      using powr_add [of "2::real" "of_int a - 52" 1] by (simp add: ux)
    also have "\<dots> \<le> 2 powr (of_int b - 52)"
      using ab by (intro powr_mono) simp_all
    also have "\<dots> = ulp y" by (simp add: uy)
    finally show ?thesis by simp
  qed
qed

lemma round53_mono_pos:
  assumes "0 < x" "x \<le> y"
  shows "round53 x \<le> round53 y"
proof -
  have ypos: "0 < y" using assms by simp
  from ulp_mono_cases [OF assms] show ?thesis
  proof
    assume eq: "ulp x = ulp y"
    have "x / ulp y \<le> y / ulp y" using assms ulp_pos [of y] by (simp add: divide_right_mono)
    then have "roundEven (x / ulp y) \<le> roundEven (y / ulp y)" by (rule roundEven_mono)
    then have "(of_int (roundEven (x / ulp y)) :: real) \<le> of_int (roundEven (y / ulp y))"
      by simp
    then show ?thesis
      using assms ypos ulp_pos [of y] by (simp add: round53_pos_eq eq)
  next
    assume "2 * ulp x \<le> ulp y"
    then have "2 ^ 53 * ulp x \<le> 2 ^ 52 * ulp y" by simp
    with round53_binade(2) [OF assms(1)] round53_binade(1) [OF ypos]
    show ?thesis by linarith
  qed
qed

lemma round53_mono: assumes "x \<le> y" shows "round53 x \<le> round53 y"
proof -
  consider "0 < x" | "x = 0" | "x < 0" "0 \<le> y" | "x < 0" "y < 0" by linarith
  then show ?thesis
  proof cases
    case 1
    then show ?thesis using assms by (rule round53_mono_pos)
  next
    case 2
    then show ?thesis using assms round53_nonneg [of y] by simp
  next
    case 3
    have "round53 x = - round53 (- x)" by (simp add: round53_minus)
    moreover have "0 < round53 (- x)" using 3 by (intro round53_pos) simp
    ultimately show ?thesis using round53_nonneg [OF 3(2)] by linarith
  next
    case 4
    have "round53 (- y) \<le> round53 (- x)" using 4 assms by (intro round53_mono_pos) simp_all
    then show ?thesis by (simp add: round53_minus)
  qed
qed

text \<open>Evaluation: a number within half a unit of the integer \<open>m\<close>, in units of \<open>2 ^ e\<close>.\<close>
lemma ulp_eq:
  assumes "2 ^ 52 \<le> \<bar>x\<bar> / 2 powr of_int e" "\<bar>x\<bar> / 2 powr of_int e < 2 ^ 53"
  shows "ulp x = 2 powr of_int e"
proof -
  have p: "(0::real) < 2 powr of_int e" by simp
  have xpos: "0 < \<bar>x\<bar>"
  proof (rule ccontr)
    assume "\<not> 0 < \<bar>x\<bar>"
    then have "x = 0" by simp
    with assms(1) show False by simp
  qed
  have lo: "2 powr of_int (e + 52) \<le> \<bar>x\<bar>"
  proof -
    have "(2::real) powr of_int (e + 52) = 2 ^ 52 * 2 powr of_int e"
      using powr_add [of "2::real" "of_int e" 52] by (simp add: powr_realpow [of 2 52, simplified] mult.commute)
    then show ?thesis using assms(1) p by (simp add: field_simps)
  qed
  have hi: "\<bar>x\<bar> < 2 powr (of_int (e + 52) + 1)"
  proof -
    have "(2::real) powr (of_int (e + 52) + 1) = 2 ^ 53 * 2 powr of_int e"
      using powr_add [of "2::real" "of_int e" 53] by (simp add: powr_realpow [of 2 53, simplified] mult.commute add.commute)
    then show ?thesis using assms(2) p by (simp add: field_simps)
  qed
  have "\<lfloor>log 2 \<bar>x\<bar>\<rfloor> = e + 52"
    using floor_log_eq_powr_iff [of "\<bar>x\<bar>" 2 "e + 52"] xpos lo hi by simp
  then show ?thesis by (simp add: ulp_def)
qed

lemma roundEven_near:
  assumes "\<bar>q - of_int m\<bar> < 1/2"
  shows "roundEven q = m"
proof -
  have a: "of_int (roundEven q) \<le> q + 1/2" "q - 1/2 \<le> of_int (roundEven q)"
    by (rule roundEven_bounds)+
  have "\<bar>(of_int (roundEven q) :: real) - of_int m\<bar> < 1" using a assms by linarith
  then have "\<bar>roundEven q - m\<bar> < 1"
    by (metis of_int_abs of_int_diff of_int_less_1_iff)
  then show ?thesis by simp
qed

lemma round53_eval:
  assumes "0 < x" "2 ^ 52 \<le> x / 2 powr of_int e" "x / 2 powr of_int e < 2 ^ 53"
    and "\<bar>x / 2 powr of_int e - of_int m\<bar> < 1/2"
  shows "round53 x = of_int m * 2 powr of_int e"
proof -
  have "ulp x = 2 powr of_int e" using assms(1-3) by (intro ulp_eq) simp_all
  then show ?thesis using assms(1) roundEven_near [OF assms(4)] by (simp add: round53_pos_eq)
qed

text \<open>A value with a 53-bit significand is its own rounding.\<close>
lemma round53_exact:
  assumes "2 ^ 52 \<le> m" "m < 2 ^ 53"
  shows "round53 (of_int m * 2 powr of_int e) = of_int m * 2 powr of_int e"
proof -
  have "(of_int (2 ^ 52) :: real) \<le> of_int m" "(of_int m :: real) < of_int (2 ^ 53)"
    using assms by (simp_all only: of_int_le_iff of_int_less_iff)
  then have m: "(2 ^ 52 :: real) \<le> of_int m" "(of_int m :: real) < 2 ^ 53" by simp_all
  moreover have "(0::real) < 2 ^ 52" by simp
  ultimately have "(0::real) < of_int m" by linarith
  then show ?thesis using m by (intro round53_eval) simp_all
qed

text \<open>The same two facts with the unit written \<open>1 / 2 ^ n\<close>.\<close>
lemma two_powr_neg: "2 powr (- real n) = (1::real) / 2 ^ n"
  by (simp add: powr_minus powr_realpow inverse_eq_divide)

lemma round53_eval_div:
  assumes "0 < x" "2 ^ 52 \<le> x * 2 ^ n" "x * 2 ^ n < 2 ^ 53"
    and "\<bar>x * 2 ^ n - of_int m\<bar> < 1/2"
  shows "round53 x = of_int m / 2 ^ n"
  using round53_eval [of x "- int n" m] assms by (simp add: two_powr_neg)

lemma round53_exact_div:
  assumes "2 ^ 52 \<le> m" "m < 2 ^ 53"
  shows "round53 (of_int m / 2 ^ n) = of_int m / 2 ^ n"
  using round53_exact [OF assms, of "- int n"] by (simp add: two_powr_neg)

lemma round53_idem: "round53 (round53 x) = round53 x"
proof -
  have pos: "round53 (round53 x) = round53 x" if "0 < x" for x :: real
  proof -
    define k where "k = roundEven (x / ulp x)"
    define e where "e = \<lfloor>log 2 x\<rfloor> - 52"
    have r: "round53 x = of_int k * 2 powr of_int e"
      using that by (simp add: round53_pos_eq k_def ulp_def e_def)
    have kr: "2 ^ 52 \<le> k" "k \<le> 2 ^ 53"
      using roundEven_range [of x] that by (simp_all add: k_def)
    show ?thesis
    proof (cases "k = 2 ^ 53")
      case False
      with kr have "k < 2 ^ 53" by simp
      then show ?thesis using kr(1) by (simp add: r round53_exact)
    next
      case True
      have "(of_int k :: real) * 2 powr of_int e = of_int (2 ^ 52) * 2 powr of_int (e + 1)"
        using powr_add [of "2::real" "of_int e" 1] by (simp add: True)
      moreover have "round53 (of_int (2 ^ 52) * 2 powr of_int (e + 1)) = of_int (2 ^ 52) * 2 powr of_int (e + 1)"
        by (rule round53_exact) simp_all
      ultimately show ?thesis by (simp only: r)
    qed
  qed
  consider "0 < x" | "x = 0" | "x < 0" by linarith
  then show ?thesis
  proof cases
    case 1 then show ?thesis by (rule pos)
  next
    case 2 then show ?thesis by simp
  next
    case 3
    then have "round53 (round53 (- x)) = round53 (- x)" by (intro pos) simp
    then show ?thesis by (simp add: round53_minus)
  qed
qed

lemma round53_1 [simp]: "round53 1 = 1"
  using round53_exact [of "2 ^ 52" "- 52"] by (simp add: powr_minus powr_realpow [of 2 52, simplified])

lemma round53_le_0_iff: "round53 x \<le> 0 \<longleftrightarrow> x \<le> 0"
proof
  assume "round53 x \<le> 0"
  then show "x \<le> 0" using round53_pos [of x] by (cases "0 < x") auto
next
  assume "x \<le> 0"
  then have "round53 x \<le> round53 0" by (rule round53_mono)
  then show "round53 x \<le> 0" by simp
qed

text \<open>Rounding changes a number by at most one part in \<open>2 ^ 53\<close>.\<close>
lemma round53_error: "\<bar>round53 x - x\<bar> \<le> \<bar>x\<bar> / 2 ^ 53"
proof -
  have pos: "\<bar>round53 x - x\<bar> \<le> x / 2 ^ 53" if "0 < x" for x :: real
  proof -
    define u where "u = ulp x"
    define k where "k = roundEven (x / u)"
    have u: "0 < u" unfolding u_def by (rule ulp_pos)
    have r: "round53 x = of_int k * u" using that by (simp add: round53_pos_eq k_def u_def)
    have "of_int k \<le> x / u + 1 / 2" "x / u - 1 / 2 \<le> of_int k"
      unfolding k_def by (rule roundEven_bounds)+
    then have "\<bar>of_int k - x / u\<bar> \<le> 1 / 2" by linarith
    then have "\<bar>of_int k - x / u\<bar> * u \<le> (1 / 2) * u"
      using u by (intro mult_right_mono) simp_all
    moreover have "\<bar>of_int k - x / u\<bar> * u = \<bar>of_int k * u - x\<bar>"
    proof -
      have "(of_int k - x / u) * u = of_int k * u - x" using u by (simp add: field_simps)
      then have "\<bar>(of_int k - x / u) * u\<bar> = \<bar>of_int k * u - x\<bar>" by simp
      then show ?thesis using u by (simp add: abs_mult)
    qed
    ultimately have e: "\<bar>round53 x - x\<bar> \<le> u / 2" by (simp add: r)
    have "2 ^ 52 \<le> \<bar>x\<bar> / ulp x" using that by (intro ulp_range(1)) simp
    then have "2 ^ 52 * u \<le> x" using that u by (simp add: u_def field_simps)
    then have "u / 2 \<le> x / 2 ^ 53" by simp
    with e show ?thesis by linarith
  qed
  consider "0 < x" | "x = 0" | "x < 0" by linarith
  then show ?thesis
  proof cases
    case 1 then show ?thesis using pos [of x] by simp
  next
    case 2 then show ?thesis by simp
  next
    case 3
    then have "\<bar>round53 (- x) - (- x)\<bar> \<le> (- x) / 2 ^ 53" by (intro pos) simp
    then show ?thesis using 3 by (simp add: round53_minus abs_minus_commute)
  qed
qed

lemma round53_lower:
  assumes "0 \<le> x"
  shows "x * (1 - 1 / 2 ^ 53) \<le> round53 x"
proof -
  have "\<bar>round53 x - x\<bar> \<le> x / 2 ^ 53" using round53_error [of x] assms by simp
  then have "x - x / 2 ^ 53 \<le> round53 x" by linarith
  moreover have "x * (1 - 1 / 2 ^ 53) = x - x / 2 ^ 53" by (simp add: algebra_simps)
  ultimately show ?thesis by (simp only:)
qed

lemma round53_upper:
  assumes "0 \<le> x"
  shows "round53 x \<le> x * (1 + 1 / 2 ^ 53)"
proof -
  have "\<bar>round53 x - x\<bar> \<le> x / 2 ^ 53" using round53_error [of x] assms by simp
  then have "round53 x \<le> x + x / 2 ^ 53" by linarith
  moreover have "x * (1 + 1 / 2 ^ 53) = x + x / 2 ^ 53" by (simp add: algebra_simps)
  ultimately show ?thesis by (simp only:)
qed

section \<open>Properties of the ranking\<close>

lemma DAMPING_bounds: "0 < DAMPING" "DAMPING \<le> 7/8"
proof -
  show "0 < DAMPING" unfolding DAMPING_def by (rule round53_pos) simp
  have "round53 (of_int (7 * 2 ^ 50) / 2 ^ 53) = of_int (7 * 2 ^ 50) / 2 ^ 53"
    by (rule round53_exact_div) simp_all
  moreover have "of_int (7 * 2 ^ 50) / 2 ^ 53 = (7/8 :: real)" by simp
  ultimately have e: "round53 (7/8) = 7/8" by simp
  have "round53 0.85 \<le> round53 (7/8)" by (rule round53_mono) simp
  then show "DAMPING \<le> 7/8" by (simp add: DAMPING_def e)
qed

lemma teleport_pos: "0 < n \<Longrightarrow> 0 < teleport n"
proof -
  assume n: "0 < n"
  have "0 < fsub 1 DAMPING" unfolding fsub_def using DAMPING_bounds(2) by (intro round53_pos) simp
  then show ?thesis unfolding teleport_def fdiv_def using n by (intro round53_pos) simp
qed

lemma fadd_teleport_ge: "0 \<le> acc \<Longrightarrow> teleport n \<le> fadd acc (teleport n)"
proof -
  assume "0 \<le> acc"
  then have "round53 (teleport n) \<le> round53 (acc + teleport n)" by (intro round53_mono) simp
  moreover have "round53 (teleport n) = teleport n" by (simp add: teleport_def fdiv_def round53_idem)
  ultimately show ?thesis by (simp add: fadd_def)
qed

lemma fadd_nonneg: "0 \<le> a \<Longrightarrow> 0 \<le> b \<Longrightarrow> 0 \<le> fadd a b"
  by (simp add: fadd_def round53_nonneg)
lemma fmul_nonneg: "0 \<le> a \<Longrightarrow> 0 \<le> b \<Longrightarrow> 0 \<le> fmul a b"
  by (simp add: fmul_def round53_nonneg)
lemma fdiv_nonneg: "0 \<le> a \<Longrightarrow> 0 \<le> b \<Longrightarrow> 0 \<le> fdiv a b"
  by (simp add: fdiv_def round53_nonneg)
lemma fsqrt_nonneg: "0 \<le> a \<Longrightarrow> 0 \<le> fsqrt a"
  by (simp add: fsqrt_def round53_nonneg)

lemma calculateSimilarity_nonneg: "0 \<le> calculateSimilarity stopwords a b"
  by (simp add: calculateSimilarity_def Let_def fdiv_nonneg fmul_nonneg fsqrt_nonneg)

lemma foldl_fadd_nonneg: "0 \<le> a \<Longrightarrow> (\<And>x. x \<in> set row \<Longrightarrow> 0 \<le> x) \<Longrightarrow> 0 \<le> foldl fadd a row"
  by (induction row arbitrary: a) (simp_all add: fadd_nonneg)

lemma normalizeRow_nonneg:
  assumes "\<And>x. x \<in> set row \<Longrightarrow> 0 \<le> x" "y \<in> set (normalizeRow n row)"
  shows "0 \<le> y"
proof -
  have s: "0 \<le> foldl fadd 0 row" using assms(1) by (intro foldl_fadd_nonneg) simp_all
  show ?thesis using assms s by (auto simp: normalizeRow_def Let_def fdiv_nonneg split: if_splits)
qed

lemma length_normalizeRow [simp]: "length (normalizeRow n row) = length row"
  by (simp add: normalizeRow_def Let_def)

lemma length_buildSimilarityMatrix [simp]:
  "length (buildSimilarityMatrix stopwords sentences) = length sentences"
  by (simp add: buildSimilarityMatrix_def Let_def)

lemma normalizedMatrix_nonneg:
  assumes "j < length sentences" "i < length sentences"
  shows "0 \<le> map (normalizeRow n) (buildSimilarityMatrix stopwords sentences) ! j ! i"
proof -
  let ?row = "buildSimilarityMatrix stopwords sentences ! j"
  have row: "?row = map (\<lambda>k. if j \<noteq> k then calculateSimilarity stopwords (sentences ! j) (sentences ! k) else 0) [0..<length sentences]"
    using assms(1) by (simp add: buildSimilarityMatrix_def Let_def)
  have nn: "\<And>x. x \<in> set ?row \<Longrightarrow> 0 \<le> x"
    by (auto simp: row calculateSimilarity_nonneg)
  have len: "length ?row = length sentences" by (simp add: row)
  have "normalizeRow n ?row ! i \<in> set (normalizeRow n ?row)"
    using assms(2) len by (intro nth_mem) simp
  then have "0 \<le> normalizeRow n ?row ! i" using nn normalizeRow_nonneg by blast
  then show ?thesis using assms(1) by simp
qed

lemma newScore_ge:
  assumes "\<And>j. j < n \<Longrightarrow> 0 \<le> nm ! j ! i" "\<And>j. j < n \<Longrightarrow> 0 \<le> scores ! j"
  shows "teleport n \<le> newScore nm scores n i"
proof -
  have "0 \<le> foldl (\<lambda>acc j. if i \<noteq> j then fadd acc (fmul (fmul DAMPING (nm ! j ! i)) (scores ! j)) else acc) a js"
    if "0 \<le> a" "set js \<subseteq> {0..<n}" for a js
    using that
  proof (induction js arbitrary: a)
    case Nil
    then show ?case by simp
  next
    case (Cons j js)
    then have "j < n" by simp
    then have "0 \<le> fmul (fmul DAMPING (nm ! j ! i)) (scores ! j)"
      using assms DAMPING_bounds(1) by (intro fmul_nonneg) simp_all
    then show ?case using Cons by (simp add: fadd_nonneg)
  qed
  then have "0 \<le> foldl (\<lambda>acc j. if i \<noteq> j then fadd acc (fmul (fmul DAMPING (nm ! j ! i)) (scores ! j)) else acc) 0 [0..<n]"
    by simp
  then show ?thesis unfolding newScore_def teleport_def [symmetric] by (rule fadd_teleport_ge)
qed

lemma rankLoop_unfold:
  "rankLoop nm n scores it c =
     (if \<not> c \<and> it < MAX_ITERATIONS then
        rankLoop nm n (map (newScore nm scores n) [0..<n]) (it + 1)
          (fsqrt (foldl (\<lambda>sum idx.
                       fadd sum (fmul (fsub (scores ! idx) (map (newScore nm scores n) [0..<n] ! idx))
                                      (fsub (scores ! idx) (map (newScore nm scores n) [0..<n] ! idx))))
                     0 [0..<length scores]) < CONVERGENCE_THRESHOLD)
      else scores)"
  by (subst rankLoop.simps) (simp add: Let_def)

lemma rankLoop_stop:
  "\<not> (\<not> c \<and> it < MAX_ITERATIONS) \<Longrightarrow> rankLoop nm n scores it c = scores"
  by (subst rankLoop_unfold) auto

lemma rankLoop_form:
  "length scores = n \<Longrightarrow>
   rankLoop nm n scores it c = scores
   \<or> (\<exists>prev. length prev = n \<and> rankLoop nm n scores it c = map (newScore nm prev n) [0..<n])"
proof (induction nm n scores it c rule: rankLoop.induct)
  case (1 nm n scores it c)
  show ?case
  proof (cases "\<not> c \<and> it < MAX_ITERATIONS")
    case False
    then show ?thesis by (simp add: rankLoop_stop)
  next
    case True
    let ?new = "map (newScore nm scores n) [0..<n]"
    let ?d = "fsqrt (foldl (\<lambda>sum idx.
                       fadd sum (fmul (fsub (scores ! idx) (?new ! idx))
                                      (fsub (scores ! idx) (?new ! idx))))
                     0 [0..<length scores])"
    have step: "rankLoop nm n scores it c = rankLoop nm n ?new (it + 1) (?d < CONVERGENCE_THRESHOLD)"
      using True by (subst rankLoop_unfold) simp
    have "rankLoop nm n ?new (it + 1) (?d < CONVERGENCE_THRESHOLD) = ?new
      \<or> (\<exists>prev. length prev = n \<and>
            rankLoop nm n ?new (it + 1) (?d < CONVERGENCE_THRESHOLD) = map (newScore nm prev n) [0..<n])"
      using True by (intro "1.IH" [OF True refl refl]) simp
    then show ?thesis using "1.prems" step by auto
  qed
qed

lemma rankLoop_length: "length scores = n \<Longrightarrow> length (rankLoop nm n scores it c) = n"
  using rankLoop_form [of scores n nm it c] by auto

text \<open>The loop keeps the lower bound: once every score is at least the teleport term,
  every later iterate is.\<close>
lemma rankLoop_lower_bound:
  "\<forall>i<n. \<forall>j<n. 0 \<le> nm ! j ! i \<Longrightarrow> length scores = n \<Longrightarrow>
   list_all (\<lambda>s. teleport n \<le> s) scores \<Longrightarrow> 0 < n \<Longrightarrow>
   list_all (\<lambda>s. teleport n \<le> s) (rankLoop nm n scores it c)"
proof (induction nm n scores it c rule: rankLoop.induct)
  case (1 nm n scores it c)
  note nm = "1.prems"(1) and len = "1.prems"(2) and low = "1.prems"(3) and n = "1.prems"(4)
  show ?case
  proof (cases "\<not> c \<and> it < MAX_ITERATIONS")
    case False
    then show ?thesis using low by (simp add: rankLoop_stop)
  next
    case True
    let ?new = "map (newScore nm scores n) [0..<n]"
    let ?d = "fsqrt (foldl (\<lambda>sum idx.
                       fadd sum (fmul (fsub (scores ! idx) (?new ! idx))
                                      (fsub (scores ! idx) (?new ! idx))))
                     0 [0..<length scores])"
    have step: "rankLoop nm n scores it c = rankLoop nm n ?new (it + 1) (?d < CONVERGENCE_THRESHOLD)"
      using True by (subst rankLoop_unfold) simp
    have nonneg: "0 \<le> scores ! j" if "j < n" for j
    proof -
      have "teleport n \<le> scores ! j" using len low that by (simp add: list_all_length)
      then show ?thesis using teleport_pos [OF n] by linarith
    qed
    have "teleport n \<le> newScore nm scores n i" if "i < n" for i
      using nm nonneg that by (intro newScore_ge) simp_all
    then have new: "list_all (\<lambda>s. teleport n \<le> s) ?new"
      by (simp add: list_all_iff)
    have "list_all (\<lambda>s. teleport n \<le> s) (rankLoop nm n ?new (it + 1) (?d < CONVERGENCE_THRESHOLD))"
      using nm n new by (intro "1.IH" [OF True refl refl]) simp_all
    then show ?thesis using step by simp
  qed
qed

lemma rankLoop_first:
  "\<exists>conv. rankLoop nm n scores 0 False = rankLoop nm n (map (newScore nm scores n) [0..<n]) 1 conv"
  apply (subst rankLoop_unfold)
  apply (simp add: MAX_ITERATIONS_def)
  apply blast
  done

lemma rankSentences_many:
  assumes "2 \<le> length sentences"
  shows "rankSentences stopwords sentences =
     rankLoop (map (normalizeRow (length sentences)) (buildSimilarityMatrix stopwords sentences))
       (length sentences) (replicate (length sentences) (fdiv 1 (real (length sentences)))) 0 False"
proof -
  have "length sentences \<noteq> 0" "length sentences \<noteq> 1" using assms by linarith+
  then show ?thesis unfolding rankSentences_def Let_def by (simp only: if_False)
qed

lemma nth_normalizedMatrix:
  assumes "j < length sentences" "i < length sentences"
  shows "map (normalizeRow (length sentences)) (buildSimilarityMatrix stopwords sentences) ! j ! i
           = edgeWeight stopwords sentences j i"
  using assms
  by (simp add: buildSimilarityMatrix_def normalizeRow_def edgeWeight_def Let_def)

lemma newScore_scoreAfter:
  assumes "i < length sentences"
  shows "newScore (map (normalizeRow (length sentences)) (buildSimilarityMatrix stopwords sentences))
           (map (scoreAfter stopwords sentences k) [0..<length sentences]) (length sentences) i
         = scoreAfter stopwords sentences (Suc k) i"
proof -
  let ?n = "length sentences"
  let ?nm = "map (normalizeRow ?n) (buildSimilarityMatrix stopwords sentences)"
  let ?scores = "map (scoreAfter stopwords sentences k) [0..<?n]"
  have "foldl (\<lambda>acc j. if i \<noteq> j then fadd acc (fmul (fmul DAMPING (?nm ! j ! i)) (?scores ! j)) else acc)
          0 [0..<?n]
        = foldl (\<lambda>acc j. if i \<noteq> j
                   then fadd acc (fmul (fmul DAMPING (edgeWeight stopwords sentences j i))
                                       (scoreAfter stopwords sentences k j))
                   else acc) 0 [0..<?n]"
  proof (rule foldl_cong [OF refl refl])
    fix acc j
    assume "j \<in> set [0..<?n]"
    then have j: "j < ?n" by simp
    have "?nm ! j ! i = edgeWeight stopwords sentences j i"
      using j assms by (rule nth_normalizedMatrix)
    moreover have "?scores ! j = scoreAfter stopwords sentences k j" using j by simp
    ultimately show "(if i \<noteq> j then fadd acc (fmul (fmul DAMPING (?nm ! j ! i)) (?scores ! j)) else acc)
        = (if i \<noteq> j then fadd acc (fmul (fmul DAMPING (edgeWeight stopwords sentences j i))
                                       (scoreAfter stopwords sentences k j)) else acc)"
      by (simp only:)
  qed
  then show ?thesis unfolding newScore_def scoreAfter.simps by (simp only:)
qed

text \<open>The loop runs rounds of the recurrence, one after the other.\<close>
lemma rankLoop_rounds:
  "scores = map (scoreAfter stopwords sentences it) [0..<n] \<Longrightarrow> n = length sentences \<Longrightarrow>
   nm = map (normalizeRow n) (buildSimilarityMatrix stopwords sentences) \<Longrightarrow>
   \<exists>k. it \<le> k \<and> k \<le> max it MAX_ITERATIONS
        \<and> rankLoop nm n scores it c = map (scoreAfter stopwords sentences k) [0..<n]"
proof (induction nm n scores it c rule: rankLoop.induct)
  case (1 nm n scores it c)
  note sc = "1.prems"(1) and n = "1.prems"(2) and nm = "1.prems"(3)
  show ?case
  proof (cases "\<not> c \<and> it < MAX_ITERATIONS")
    case False
    then have "rankLoop nm n scores it c = map (scoreAfter stopwords sentences it) [0..<n]"
      using sc by (simp add: rankLoop_stop)
    then show ?thesis by (intro exI [of _ it]) simp
  next
    case True
    let ?new = "map (newScore nm scores n) [0..<n]"
    let ?d = "fsqrt (foldl (\<lambda>sum idx.
                       fadd sum (fmul (fsub (scores ! idx) (?new ! idx))
                                      (fsub (scores ! idx) (?new ! idx))))
                     0 [0..<length scores])"
    have step: "rankLoop nm n scores it c = rankLoop nm n ?new (it + 1) (?d < CONVERGENCE_THRESHOLD)"
      using True by (subst rankLoop_unfold) simp
    have new: "?new = map (scoreAfter stopwords sentences (it + 1)) [0..<n]"
      unfolding sc n nm by (rule map_cong [OF refl]) (simp add: newScore_scoreAfter)
    obtain k where k: "it + 1 \<le> k" "k \<le> max (it + 1) MAX_ITERATIONS"
        "rankLoop nm n ?new (it + 1) (?d < CONVERGENCE_THRESHOLD)
           = map (scoreAfter stopwords sentences k) [0..<n]"
      using "1.IH" [OF True refl refl new n nm] by blast
    have "it \<le> k \<and> k \<le> max it MAX_ITERATIONS
          \<and> rankLoop nm n scores it c = map (scoreAfter stopwords sentences k) [0..<n]"
      using k True step by simp
    then show ?thesis by blast
  qed
qed

text \<open>
  C4. \<open>rankSentences\<close> returns no score for no sentence and the single score 1 for one
  sentence; in general it returns one score per sentence; and with two or more sentences
  there is a number of rounds \<open>k\<close>, between 1 and 50, such that the entry at index \<open>i\<close>
  is the score of sentence \<open>i\<close> after \<open>k\<close> rounds of the recurrence of the spec,
  started from \<open>1/N\<close> for every sentence: the damped sum over the other sentences
  \<open>j\<close> of their scores, weighted by the similarity of sentence \<open>j\<close> to sentence
  \<open>i\<close>, plus the teleport term.
\<close>
theorem rankSentences_shape:
  "rankSentences stopwords [] = []
   \<and> rankSentences stopwords [s] = [1]
   \<and> length (rankSentences stopwords sentences) = length sentences
   \<and> (2 \<le> length sentences \<longrightarrow>
        (\<exists>k. 1 \<le> k \<and> k \<le> 50 \<and>
           (\<forall>i<length sentences.
              rankSentences stopwords sentences ! i = scoreAfter stopwords sentences k i)))"
proof -
  let ?n = "length sentences"
  let ?nm = "map (normalizeRow ?n) (buildSimilarityMatrix stopwords sentences)"
  let ?init = "replicate ?n (fdiv 1 (real ?n))"
  let ?new = "map (newScore ?nm ?init ?n) [0..<?n]"
  have a: "rankSentences stopwords [] = []" by (simp add: rankSentences_def)
  have b: "rankSentences stopwords [s] = [1]" by (simp add: rankSentences_def)
  have c: "length (rankSentences stopwords sentences) = ?n"
    by (simp add: rankSentences_def Let_def rankLoop_length)
  have d: "\<exists>k. 1 \<le> k \<and> k \<le> 50 \<and>
           (\<forall>i<?n. rankSentences stopwords sentences ! i = scoreAfter stopwords sentences k i)"
    if "2 \<le> ?n"
  proof -
    have r: "rankSentences stopwords sentences = rankLoop ?nm ?n ?init 0 False"
      using that by (rule rankSentences_many)
    obtain conv where s: "rankLoop ?nm ?n ?init 0 False = rankLoop ?nm ?n ?new 1 conv"
      using rankLoop_first by blast
    have init: "?init = map (scoreAfter stopwords sentences 0) [0..<?n]"
      by (rule nth_equalityI) simp_all
    have new: "?new = map (scoreAfter stopwords sentences 1) [0..<?n]"
      unfolding init One_nat_def by (rule map_cong [OF refl]) (simp add: newScore_scoreAfter)
    obtain k where k: "1 \<le> k" "k \<le> max 1 MAX_ITERATIONS"
        "rankLoop ?nm ?n ?new 1 conv = map (scoreAfter stopwords sentences k) [0..<?n]"
      using rankLoop_rounds [OF new refl refl, of conv] by blast
    have "k \<le> 50" using k(2) by (simp add: MAX_ITERATIONS_def)
    moreover have "\<forall>i<?n. rankSentences stopwords sentences ! i = scoreAfter stopwords sentences k i"
      using r s k(3) by simp
    ultimately show ?thesis using k(1) by blast
  qed
  show ?thesis using a b c d by blast
qed

theorem rankSentences_shape_witness:
  "rankSentences {} [] = []
   \<and> rankSentences {} [''One cat.''] = [1]
   \<and> length (rankSentences {} [''One cat.'', ''Two dogs.'']) = length [''One cat.'', ''Two dogs.'']
   \<and> 2 \<le> length [''One cat.'', ''Two dogs.'']
   \<and> (\<exists>k. 1 \<le> k \<and> k \<le> 50 \<and>
         (\<forall>i<length [''One cat.'', ''Two dogs.''].
            rankSentences {} [''One cat.'', ''Two dogs.''] ! i
              = scoreAfter {} [''One cat.'', ''Two dogs.''] k i))"
proof -
  have h: "2 \<le> length [''One cat.'', ''Two dogs.'']" by simp
  from rankSentences_shape [of "{}" "''One cat.''" "[''One cat.'', ''Two dogs.'']"] h
  show ?thesis by blast
qed

text \<open>
  C10. With two or more sentences every returned score is at least the teleport term
  \<open>(1 - DAMPING) / n\<close>, and that term is positive.
\<close>
theorem rankSentences_lower_bound:
  assumes "2 \<le> length sentences"
  shows "list_all (\<lambda>score. fdiv (fsub 1 DAMPING) (real (length sentences)) \<le> score \<and> 0 < score)
           (rankSentences stopwords sentences)"
proof -
  let ?n = "length sentences"
  let ?nm = "map (normalizeRow ?n) (buildSimilarityMatrix stopwords sentences)"
  let ?init = "replicate ?n (fdiv 1 (real ?n))"
  let ?new = "map (newScore ?nm ?init ?n) [0..<?n]"
  have n: "0 < ?n" using assms by linarith
  have nm: "\<forall>i<?n. \<forall>j<?n. 0 \<le> ?nm ! j ! i"
    using normalizedMatrix_nonneg by blast
  have r: "rankSentences stopwords sentences = rankLoop ?nm ?n ?init 0 False"
    using assms by (rule rankSentences_many)
  obtain conv where s: "rankLoop ?nm ?n ?init 0 False = rankLoop ?nm ?n ?new 1 conv"
    using rankLoop_first by blast
  have init: "0 \<le> ?init ! j" if "j < ?n" for j
    using that by (simp add: fdiv_nonneg)
  have "teleport ?n \<le> newScore ?nm ?init ?n i" if "i < ?n" for i
    using nm init that by (intro newScore_ge) simp_all
  then have "list_all (\<lambda>s. teleport ?n \<le> s) ?new" by (simp add: list_all_iff)
  then have "list_all (\<lambda>s. teleport ?n \<le> s) (rankLoop ?nm ?n ?new 1 conv)"
    using nm n by (intro rankLoop_lower_bound) simp_all
  then have "list_all (\<lambda>s. teleport ?n \<le> s) (rankSentences stopwords sentences)"
    using r s by simp
  then show ?thesis
    using teleport_pos [OF n] unfolding teleport_def list_all_iff by fastforce
qed

theorem rankSentences_lower_bound_witness:
  "2 \<le> length [''One cat.'', ''Two dogs.'']
   \<and> list_all (\<lambda>score. fdiv (fsub 1 DAMPING) (real (length [''One cat.'', ''Two dogs.''])) \<le> score \<and> 0 < score)
        (rankSentences {} [''One cat.'', ''Two dogs.''])"
proof -
  have h: "2 \<le> length [''One cat.'', ''Two dogs.'']" by simp
  show ?thesis using h rankSentences_lower_bound [OF h, of "{}"] by blast
qed

subsection \<open>The similarity in double precision\<close>

lemma tokens3_list:
  "tokenizeWords stopwords ''cat dog bird'' True
     = filter (\<lambda>word. word \<notin> stopwords) [''cat'', ''dog'', ''bird'']"
  by (simp add: tokenizeWords_def toLowerCase_def lowerChar_def stripPunct_def trim_def
        isWordChar_def isSpace_def isUpper_def isLower_def code_def wordEnd_def
        stemWord_plain endsWith_def Let_def)

lemma tokens3: "set (tokenizeWords {} ''cat dog bird'' True) = {''cat'', ''dog'', ''bird''}"
  by (simp add: tokens3_list)

lemma fsqrt_3: "fsqrt 3 = 7800463371553962 / 2 ^ 52"
proof -
  have lo: "15600926743107923 / 2 ^ 53 < sqrt 3"
    by (rule real_less_rsqrt) (simp add: power2_eq_square)
  have hi: "sqrt 3 < 15600926743107925 / 2 ^ 53"
    by (rule real_less_lsqrt) (simp_all add: power2_eq_square)
  have "round53 (sqrt 3) = of_int 7800463371553962 / 2 ^ 52"
  proof (rule round53_eval_div)
    show "0 < sqrt 3" by simp
    show "2 ^ 52 \<le> sqrt 3 * 2 ^ 52" using lo by simp
    show "sqrt 3 * 2 ^ 52 < 2 ^ 53" using hi by simp
    have "sqrt 3 * 2 ^ 52 - of_int 7800463371553962 < 1 / 2"
      "- (1 / 2) < sqrt 3 * 2 ^ 52 - of_int 7800463371553962"
      using lo hi by simp_all
    then show "\<bar>sqrt 3 * 2 ^ 52 - of_int 7800463371553962\<bar> < 1 / 2"
      unfolding abs_less_iff by linarith
  qed
  then show ?thesis by (simp add: fsqrt_def)
qed

lemma fmul_sqrt3: "fmul (7800463371553962 / 2 ^ 52) (7800463371553962 / 2 ^ 52) = 6755399441055743 / 2 ^ 51"
proof -
  have "round53 (7800463371553962 / 2 ^ 52 * (7800463371553962 / 2 ^ 52)) = of_int 6755399441055743 / 2 ^ 51"
    by (rule round53_eval_div) simp_all
  then show ?thesis by (simp add: fmul_def)
qed

lemma fdiv_3: "fdiv 3 (6755399441055743 / 2 ^ 51) = 1 + 1 / 2 ^ 52"
proof -
  have "round53 (3 / (6755399441055743 / 2 ^ 51)) = of_int 4503599627370497 / 2 ^ 52"
    by (rule round53_eval_div) simp_all
  then show ?thesis by (simp add: fdiv_def)
qed

lemma sim3: "calculateSimilarity {} ''cat dog bird'' ''cat dog bird'' = 1 + 1 / 2 ^ 52"
proof -
  have c: "card {''cat'', ''dog'', ''bird''} = 3" by simp
  have f: "Set.filter (\<lambda>word. word \<in> {''cat'', ''dog'', ''bird''}) {''cat'', ''dog'', ''bird''} = {''cat'', ''dog'', ''bird''}"
    by auto
  have "calculateSimilarity {} ''cat dog bird'' ''cat dog bird''
          = fdiv (real (3::nat)) (fmul (fsqrt (real (3::nat))) (fsqrt (real (3::nat))))"
    unfolding calculateSimilarity_def tokens3 Let_def f c by simp
  also have "\<dots> = fdiv 3 (fmul (fsqrt 3) (fsqrt 3))" by simp
  also have "\<dots> = 1 + 1 / 2 ^ 52" by (simp only: fsqrt_3 fmul_sqrt3 fdiv_3)
  finally show ?thesis .
qed

text \<open>The same value with any stop-word table that holds none of the three words.\<close>
lemma sim3_stopwords:
  assumes "''cat'' \<notin> stopwords" "''dog'' \<notin> stopwords" "''bird'' \<notin> stopwords"
  shows "calculateSimilarity stopwords ''cat dog bird'' ''cat dog bird'' = 1 + 1 / 2 ^ 52"
proof -
  have "tokenizeWords stopwords ''cat dog bird'' True = tokenizeWords {} ''cat dog bird'' True"
    using assms by (simp add: tokens3_list)
  then have "calculateSimilarity stopwords ''cat dog bird'' ''cat dog bird''
               = calculateSimilarity {} ''cat dog bird'' ''cat dog bird''"
    by (simp add: calculateSimilarity_def)
  then show ?thesis by (simp only: sim3)
qed

text \<open>The similarity formula of line 32 on three counts: \<open>i\<close> common words out of \<open>a\<close>
  and \<open>b\<close>.\<close>
lemma similarity_upper:
  fixes a b i :: real
  assumes "1 \<le> a" "1 \<le> b" "0 \<le> i" "i \<le> a" "i \<le> b"
  shows "fdiv i (fmul (fsqrt a) (fsqrt b)) \<le> 1 + 1 / 2 ^ 50"
proof -
  define u :: real where "u = 1 / 2 ^ 53"
  define S where "S = sqrt a * sqrt b"
  have u: "0 < u" "u < 1" by (simp_all add: u_def)
  have Spos: "0 < S" using assms by (simp add: S_def)
  have sa: "sqrt a * (1 - u) \<le> fsqrt a"
    unfolding fsqrt_def u_def using assms by (intro round53_lower) simp
  have sb: "sqrt b * (1 - u) \<le> fsqrt b"
    unfolding fsqrt_def u_def using assms by (intro round53_lower) simp
  have sa0: "0 \<le> sqrt a * (1 - u)" and sb0: "0 \<le> sqrt b * (1 - u)" using assms u by simp_all
  have prod: "(sqrt a * (1 - u)) * (sqrt b * (1 - u)) \<le> fsqrt a * fsqrt b"
    using sa sb sa0 sb0 by (intro mult_mono) linarith+
  have fnn: "0 \<le> fsqrt a * fsqrt b"
    using sa sb sa0 sb0 by (intro mult_nonneg_nonneg) linarith+
  have "(fsqrt a * fsqrt b) * (1 - u) \<le> fmul (fsqrt a) (fsqrt b)"
    unfolding fmul_def u_def using fnn by (rule round53_lower)
  moreover have "(sqrt a * (1 - u)) * (sqrt b * (1 - u)) * (1 - u) \<le> (fsqrt a * fsqrt b) * (1 - u)"
    using prod u by (intro mult_right_mono) simp_all
  moreover have "(sqrt a * (1 - u)) * (sqrt b * (1 - u)) * (1 - u) = S * (1 - u) ^ 3"
    by (simp add: S_def power3_eq_cube algebra_simps)
  ultimately have p: "S * (1 - u) ^ 3 \<le> fmul (fsqrt a) (fsqrt b)" by linarith
  have low: "0 < S * (1 - u) ^ 3" using Spos u by simp
  then have ppos: "0 < fmul (fsqrt a) (fsqrt b)" using p by linarith
  have "i * i \<le> a * b" using assms by (intro mult_mono) simp_all
  then have "i \<le> sqrt (a * b)" by (intro real_le_rsqrt) (simp add: power2_eq_square)
  then have iS: "i \<le> S" by (simp add: S_def real_sqrt_mult)
  have "i / fmul (fsqrt a) (fsqrt b) \<le> i / (S * (1 - u) ^ 3)"
    using p low assms(3) by (intro divide_left_mono) simp_all
  also have "\<dots> \<le> S / (S * (1 - u) ^ 3)"
    using iS low by (intro divide_right_mono) simp_all
  also have "\<dots> = 1 / (1 - u) ^ 3" using Spos by simp
  finally have q: "i / fmul (fsqrt a) (fsqrt b) \<le> 1 / (1 - u) ^ 3" .
  have qnn: "0 \<le> i / fmul (fsqrt a) (fsqrt b)" using assms(3) ppos by simp
  have "fdiv i (fmul (fsqrt a) (fsqrt b)) \<le> (i / fmul (fsqrt a) (fsqrt b)) * (1 + u)"
    unfolding fdiv_def u_def using qnn by (rule round53_upper)
  also have "\<dots> \<le> (1 / (1 - u) ^ 3) * (1 + u)"
    using q u by (intro mult_right_mono) simp_all
  also have "\<dots> \<le> 1 + 1 / 2 ^ 50"
    by (simp add: u_def field_simps)
  finally show ?thesis .
qed

lemma similarity_self_lower:
  fixes a :: real
  assumes "1 \<le> a"
  shows "1 - 1 / 2 ^ 50 \<le> fdiv a (fmul (fsqrt a) (fsqrt a))"
proof -
  define u :: real where "u = 1 / 2 ^ 53"
  have u: "0 < u" "u < 1" by (simp_all add: u_def)
  have apos: "0 < a" using assms by simp
  have s0: "0 \<le> fsqrt a" using assms by (intro fsqrt_nonneg) simp
  have s1: "fsqrt a \<le> sqrt a * (1 + u)"
    unfolding fsqrt_def u_def using assms by (intro round53_upper) simp
  have slow: "sqrt a * (1 - u) \<le> fsqrt a"
    unfolding fsqrt_def u_def using assms by (intro round53_lower) simp
  have "0 < sqrt a * (1 - u)" using apos u by simp
  then have spos: "0 < fsqrt a" using slow by linarith
  have prod: "fsqrt a * fsqrt a \<le> (sqrt a * (1 + u)) * (sqrt a * (1 + u))"
    using s0 s1 by (intro mult_mono) simp_all
  have "fmul (fsqrt a) (fsqrt a) \<le> (fsqrt a * fsqrt a) * (1 + u)"
    unfolding fmul_def u_def using s0 by (intro round53_upper) simp
  moreover have "(fsqrt a * fsqrt a) * (1 + u) \<le> (sqrt a * (1 + u)) * (sqrt a * (1 + u)) * (1 + u)"
    using prod u by (intro mult_right_mono) simp_all
  moreover have "(sqrt a * (1 + u)) * (sqrt a * (1 + u)) * (1 + u) = a * (1 + u) ^ 3"
    using apos by (simp add: power3_eq_cube algebra_simps)
  ultimately have p: "fmul (fsqrt a) (fsqrt a) \<le> a * (1 + u) ^ 3" by linarith
  have ppos: "0 < fmul (fsqrt a) (fsqrt a)"
    unfolding fmul_def using spos by (intro round53_pos) simp
  have "1 / (1 + u) ^ 3 = a / (a * (1 + u) ^ 3)" using apos by simp
  also have "\<dots> \<le> a / fmul (fsqrt a) (fsqrt a)"
    using p ppos apos by (intro divide_left_mono) simp_all
  finally have q: "1 / (1 + u) ^ 3 \<le> a / fmul (fsqrt a) (fsqrt a)" .
  have qnn: "0 \<le> a / fmul (fsqrt a) (fsqrt a)" using apos ppos by simp
  have "1 - 1 / 2 ^ 50 \<le> (1 / (1 + u) ^ 3) * (1 - u)"
    by (simp add: u_def field_simps)
  also have "\<dots> \<le> (a / fmul (fsqrt a) (fsqrt a)) * (1 - u)"
    using q u by (intro mult_right_mono) simp_all
  also have "\<dots> \<le> fdiv a (fmul (fsqrt a) (fsqrt a))"
    unfolding fdiv_def u_def using qnn by (rule round53_lower)
  finally show ?thesis .
qed

lemma calculateSimilarity_formula:
  assumes "set (tokenizeWords stopwords a True) \<noteq> {}" "set (tokenizeWords stopwords b True) \<noteq> {}"
  shows "calculateSimilarity stopwords a b =
     fdiv (real (card (set (tokenizeWords stopwords a True) \<inter> set (tokenizeWords stopwords b True))))
       (fmul (fsqrt (real (card (set (tokenizeWords stopwords a True)))))
             (fsqrt (real (card (set (tokenizeWords stopwords b True))))))"
proof -
  have "Set.filter (\<lambda>word. word \<in> set (tokenizeWords stopwords b True)) (set (tokenizeWords stopwords a True))
          = set (tokenizeWords stopwords a True) \<inter> set (tokenizeWords stopwords b True)"
    by auto
  then show ?thesis using assms by (simp add: calculateSimilarity_def Let_def)
qed

lemma calculateSimilarity_empty:
  assumes "set (tokenizeWords stopwords a True) = {} \<or> set (tokenizeWords stopwords b True) = {}"
  shows "calculateSimilarity stopwords a b = 0"
  using assms by (auto simp: calculateSimilarity_def Let_def)

lemma calculateSimilarity_sym:
  "calculateSimilarity stopwords a b = calculateSimilarity stopwords b a"
proof (cases "set (tokenizeWords stopwords a True) = {} \<or> set (tokenizeWords stopwords b True) = {}")
  case True
  then show ?thesis by (auto simp: calculateSimilarity_empty)
next
  case False
  then have ne: "set (tokenizeWords stopwords a True) \<noteq> {}" "set (tokenizeWords stopwords b True) \<noteq> {}"
    by simp_all
  show ?thesis
    unfolding calculateSimilarity_formula [OF ne] calculateSimilarity_formula [OF ne(2) ne(1)]
    by (simp add: Int_commute fmul_def mult.commute)
qed

lemma calculateSimilarity_upper: "calculateSimilarity stopwords a b \<le> 1 + 1 / 2 ^ 50"
proof (cases "set (tokenizeWords stopwords a True) = {} \<or> set (tokenizeWords stopwords b True) = {}")
  case True
  then show ?thesis by (simp add: calculateSimilarity_empty)
next
  case False
  let ?A = "set (tokenizeWords stopwords a True)"
  let ?B = "set (tokenizeWords stopwords b True)"
  from False have ne: "?A \<noteq> {}" "?B \<noteq> {}" by simp_all
  have ca: "1 \<le> card ?A" using ne(1) by (simp add: Suc_le_eq card_gt_0_iff)
  have cb: "1 \<le> card ?B" using ne(2) by (simp add: Suc_le_eq card_gt_0_iff)
  have ia: "card (?A \<inter> ?B) \<le> card ?A" by (intro card_mono) simp_all
  have ib: "card (?A \<inter> ?B) \<le> card ?B" by (intro card_mono) simp_all
  have "fdiv (real (card (?A \<inter> ?B))) (fmul (fsqrt (real (card ?A))) (fsqrt (real (card ?B))))
          \<le> 1 + 1 / 2 ^ 50"
    using ca cb ia ib by (intro similarity_upper) simp_all
  then show ?thesis unfolding calculateSimilarity_formula [OF ne] .
qed

lemma calculateSimilarity_self_lower:
  assumes "set (tokenizeWords stopwords a True) \<noteq> {}"
  shows "1 - 1 / 2 ^ 50 \<le> calculateSimilarity stopwords a a"
proof -
  let ?A = "set (tokenizeWords stopwords a True)"
  have ca: "1 \<le> card ?A" using assms by (simp add: Suc_le_eq card_gt_0_iff)
  have "1 - 1 / 2 ^ 50 \<le> fdiv (real (card ?A)) (fmul (fsqrt (real (card ?A))) (fsqrt (real (card ?A))))"
    using ca by (intro similarity_self_lower) simp
  then show ?thesis unfolding calculateSimilarity_formula [OF assms assms] by simp
qed

lemma calculateSimilarity_self_one:
  assumes "card (set (tokenizeWords stopwords a True)) = 1"
  shows "calculateSimilarity stopwords a a = 1"
proof -
  have ne: "set (tokenizeWords stopwords a True) \<noteq> {}" using assms by auto
  show ?thesis
    unfolding calculateSimilarity_formula [OF ne ne]
    by (simp add: assms fsqrt_def fmul_def fdiv_def)
qed

text \<open>
  C7 (as amended). \<open>calculateSimilarity\<close> is symmetric, is 0 when either token set is
  empty, and lies between 0 and \<open>1 + 2^-50\<close>; for a sentence with a non-empty token set
  the similarity with itself is within \<open>2^-50\<close> of 1, and it is exactly 1 when the set
  has a single token.
\<close>
theorem calculateSimilarity_properties:
  "calculateSimilarity stopwords a b = calculateSimilarity stopwords b a
   \<and> 0 \<le> calculateSimilarity stopwords a b
   \<and> calculateSimilarity stopwords a b \<le> 1 + 1 / 2 ^ 50
   \<and> (set (tokenizeWords stopwords a True) = {} \<or> set (tokenizeWords stopwords b True) = {}
        \<longrightarrow> calculateSimilarity stopwords a b = 0)
   \<and> (set (tokenizeWords stopwords a True) \<noteq> {}
        \<longrightarrow> \<bar>calculateSimilarity stopwords a a - 1\<bar> \<le> 1 / 2 ^ 50)
   \<and> (card (set (tokenizeWords stopwords a True)) = 1
        \<longrightarrow> calculateSimilarity stopwords a a = 1)"
proof -
  have self: "\<bar>calculateSimilarity stopwords a a - 1\<bar> \<le> 1 / 2 ^ 50"
    if "set (tokenizeWords stopwords a True) \<noteq> {}"
    using calculateSimilarity_self_lower [OF that] calculateSimilarity_upper [of stopwords a a]
    unfolding abs_le_iff by linarith
  show ?thesis
    using calculateSimilarity_sym [of stopwords a b] calculateSimilarity_nonneg [of stopwords a b]
      calculateSimilarity_upper [of stopwords a b] calculateSimilarity_empty [of stopwords a b]
      self calculateSimilarity_self_one [of stopwords a]
    by blast
qed

lemma tokens1: "set (tokenizeWords {} ''cat'' True) = {''cat''}"
  by (simp add: tokenizeWords_def toLowerCase_def lowerChar_def stripPunct_def trim_def
        isWordChar_def isSpace_def isUpper_def isLower_def code_def wordEnd_def
        stemWord_plain endsWith_def Let_def)

lemma tokens0: "set (tokenizeWords {} '' ... '' True) = {}"
  by (simp add: tokenizeWords_def toLowerCase_def lowerChar_def stripPunct_def trim_def
        isWordChar_def isSpace_def isUpper_def isLower_def code_def wordEnd_def
        stemWord_plain endsWith_def Let_def)

theorem calculateSimilarity_properties_witness:
  "calculateSimilarity {} ''cat'' ''cat dog bird'' = calculateSimilarity {} ''cat dog bird'' ''cat''
   \<and> 0 \<le> calculateSimilarity {} ''cat'' ''cat dog bird''
   \<and> calculateSimilarity {} ''cat'' ''cat dog bird'' \<le> 1 + 1 / 2 ^ 50
   \<and> set (tokenizeWords {} '' ... '' True) = {}
   \<and> calculateSimilarity {} '' ... '' ''cat'' = 0
   \<and> set (tokenizeWords {} ''cat dog bird'' True) \<noteq> {}
   \<and> \<bar>calculateSimilarity {} ''cat dog bird'' ''cat dog bird'' - 1\<bar> \<le> 1 / 2 ^ 50
   \<and> card (set (tokenizeWords {} ''cat'' True)) = 1
   \<and> calculateSimilarity {} ''cat'' ''cat'' = 1"
proof -
  note t1 = calculateSimilarity_properties [of "{}" "''cat''" "''cat dog bird''"]
  note t2 = calculateSimilarity_properties [of "{}" "'' ... ''" "''cat''"]
  note t3 = calculateSimilarity_properties [of "{}" "''cat dog bird''" "''cat''"]
  have e: "set (tokenizeWords {} '' ... '' True) = {}" by (rule tokens0)
  have n: "set (tokenizeWords {} ''cat dog bird'' True) \<noteq> {}" unfolding tokens3 by simp
  have c: "card (set (tokenizeWords {} ''cat'' True)) = 1" unfolding tokens1 by simp
  have a1: "calculateSimilarity {} ''cat'' ''cat dog bird'' = calculateSimilarity {} ''cat dog bird'' ''cat''"
    by (rule t1 [THEN conjunct1])
  have a2: "0 \<le> calculateSimilarity {} ''cat'' ''cat dog bird''"
    by (rule t1 [THEN conjunct2, THEN conjunct1])
  have a3: "calculateSimilarity {} ''cat'' ''cat dog bird'' \<le> 1 + 1 / 2 ^ 50"
    by (rule t1 [THEN conjunct2, THEN conjunct2, THEN conjunct1])
  have a4: "calculateSimilarity {} '' ... '' ''cat'' = 0"
    by (rule t2 [THEN conjunct2, THEN conjunct2, THEN conjunct2, THEN conjunct1, THEN mp, OF disjI1 [OF e]])
  have a5: "\<bar>calculateSimilarity {} ''cat dog bird'' ''cat dog bird'' - 1\<bar> \<le> 1 / 2 ^ 50"
    by (rule t3 [THEN conjunct2, THEN conjunct2, THEN conjunct2, THEN conjunct2, THEN conjunct1, THEN mp, OF n])
  have a6: "calculateSimilarity {} ''cat'' ''cat'' = 1"
    by (rule t1 [THEN conjunct2, THEN conjunct2, THEN conjunct2, THEN conjunct2, THEN conjunct2, THEN mp, OF c])
  show ?thesis by (intro conjI a1 a2 a3 e a4 n a5 c a6)
qed

text \<open>
  C7 as it is written asks for exactly 1.0 and for a result in \<open>[0, 1]\<close>. With
  three distinct tokens the square root of 3 is rounded, its square is rounded to
  \<open>3 - 2^-51\<close>, and the quotient is rounded to \<open>1 + 2^-52\<close>: not 1, and above 1.
\<close>
theorem calculateSimilarity_exact_counterexample:
  "set (tokenizeWords {} ''cat dog bird'' True) \<noteq> {}
   \<and> calculateSimilarity {} ''cat dog bird'' ''cat dog bird'' = 1 + 1 / 2 ^ 52
   \<and> calculateSimilarity {} ''cat dog bird'' ''cat dog bird'' \<noteq> 1
   \<and> \<not> calculateSimilarity {} ''cat dog bird'' ''cat dog bird'' \<le> 1"
proof -
  have n: "set (tokenizeWords {} ''cat dog bird'' True) \<noteq> {}" unfolding tokens3 by simp
  show ?thesis using n by (simp add: sim3)
qed

section \<open>Properties of the summarizer\<close>

lemma byIndex_le_0_iff: "byIndex a b \<le> 0 \<longleftrightarrow> index a \<le> index b"
  by (simp add: byIndex_def fsub_def round53_le_0_iff)

lemma length_insertBy [simp]: "length (insertBy cmp x ys) = Suc (length ys)"
  by (induction ys) simp_all

lemma set_insertBy [simp]: "set (insertBy cmp x ys) = insert x (set ys)"
  by (induction ys) auto

lemma length_sortBy [simp]: "length (sortBy cmp xs) = length xs"
  by (induction xs) (simp_all add: sortBy_def)

lemma set_sortBy [simp]: "set (sortBy cmp xs) = set xs"
  by (induction xs) (simp_all add: sortBy_def)

lemma distinct_map_insertBy:
  "distinct (map f (insertBy cmp x ys)) \<longleftrightarrow> f x \<notin> f ` set ys \<and> distinct (map f ys)"
  by (induction ys) auto

lemma distinct_map_sortBy: "distinct (map f (sortBy cmp xs)) \<longleftrightarrow> distinct (map f xs)"
proof (induction xs)
  case Nil
  then show ?case by (simp add: sortBy_def)
next
  case (Cons x xs)
  have "sortBy cmp (x # xs) = insertBy cmp x (sortBy cmp xs)" by (simp add: sortBy_def)
  then show ?case using Cons by (simp add: distinct_map_insertBy)
qed

lemma sorted_insertBy_index:
  "sorted (map index ys) \<Longrightarrow> sorted (map index (insertBy byIndex x ys))"
  by (induction ys) (auto simp: byIndex_le_0_iff)

lemma sorted_sortBy_index: "sorted (map index (sortBy byIndex xs))"
proof (induction xs)
  case Nil
  then show ?case by (simp add: sortBy_def)
next
  case (Cons x xs)
  have "sortBy byIndex (x # xs) = insertBy byIndex x (sortBy byIndex xs)" by (simp add: sortBy_def)
  then show ?case using Cons by (simp add: sorted_insertBy_index)
qed

lemma length_slice0:
  "int (length (slice0 xs e)) =
     (case e of
        Integer k \<Rightarrow> if k < 0 then max (int (length xs) + k) 0 else min k (int (length xs))
      | PlusInfinity \<Rightarrow> int (length xs)
      | NotANumber \<Rightarrow> 0)"
  by (auto simp: slice0_def Let_def split: jsInteger.splits)

lemma set_slice0: "set (slice0 xs e) \<subseteq> set xs"
  by (simp add: slice0_def Let_def set_take_subset)

lemma distinct_map_slice0: "distinct (map f xs) \<Longrightarrow> distinct (map f (slice0 xs e))"
  by (simp add: slice0_def Let_def take_map [symmetric] distinct_take)

lemma foldl_step_subset:
  assumes "\<And>acc c. set (f acc c) \<subseteq> insert c (set acc)"
  shows "set (foldl f acc cs) \<subseteq> set acc \<union> set cs"
proof (induction cs arbitrary: acc)
  case Nil
  then show ?case by simp
next
  case (Cons c cs)
  have "set (foldl f (f acc c) cs) \<subseteq> set (f acc c) \<union> set cs" by (rule Cons.IH)
  also have "\<dots> \<subseteq> insert c (set acc) \<union> set cs" using assms [of acc c] by auto
  finally show ?case by auto
qed

lemma set_deduplicateSentences: "set (deduplicateSentences stopwords cands th) \<subseteq> set cands"
proof -
  have "set (deduplicateSentences stopwords cands th) \<subseteq> set [] \<union> set cands"
    unfolding deduplicateSentences_def
    by (rule foldl_step_subset) (auto simp: Let_def)
  then show ?thesis by simp
qed

text \<open>The selection before its final sort, with and without deduplication.\<close>
lemma selectSentences_plain:
  assumes "\<not> deduplicateSimilar opts"
  shows "selectSentences mathLog stopwords meta r m opts =
     sortBy byIndex
       (map fst (slice0
          (sortBy (\<lambda>a b. fsub (snd b) (snd a))
             (map (\<lambda>s. (s, case scoreSentences stopwords meta
                                   (calculateTfIdf mathLog stopwords (map text' meta)) (index s) of
                               None \<Rightarrow> 0 | Some v \<Rightarrow> v)) meta))
          (sentenceCount (length meta) r m)))"
  using assms by (simp add: selectSentences_def Let_def)

lemma selectSentences_dedup:
  assumes "deduplicateSimilar opts"
  shows "selectSentences mathLog stopwords meta r m opts =
     sortBy byIndex
       (slice0
          (deduplicateSentences stopwords
             (map fst (slice0
                (sortBy (\<lambda>a b. fsub (snd b) (snd a))
                   (map (\<lambda>s. (s, case scoreSentences stopwords meta
                                         (calculateTfIdf mathLog stopwords (map text' meta)) (index s) of
                                     None \<Rightarrow> 0 | Some v \<Rightarrow> v)) meta))
                (timesTwo (sentenceCount (length meta) r m))))
             (round53 0.6))
          (sentenceCount (length meta) r m))"
  using assms by (simp add: selectSentences_def Let_def)

lemma set_topSentences:
  "set (map fst (slice0 (sortBy cmp (map (\<lambda>s. (s, g s)) meta)) k)) \<subseteq> set meta"
proof -
  have "set (slice0 (sortBy cmp (map (\<lambda>s. (s, g s)) meta)) k)
          \<subseteq> set (sortBy cmp (map (\<lambda>s. (s, g s)) meta))"
    by (rule set_slice0)
  then have "set (slice0 (sortBy cmp (map (\<lambda>s. (s, g s)) meta)) k) \<subseteq> (\<lambda>s. (s, g s)) ` set meta"
    by simp
  then show ?thesis by auto
qed

lemma set_selectSentences: "set (selectSentences mathLog stopwords meta r m opts) \<subseteq> set meta"
proof (cases "deduplicateSimilar opts")
  case False
  show ?thesis
    unfolding selectSentences_plain [OF False] set_sortBy by (rule set_topSentences)
next
  case True
  show ?thesis
    unfolding selectSentences_dedup [OF True] set_sortBy
    by (rule subset_trans [OF set_slice0], rule subset_trans [OF set_deduplicateSentences],
        rule set_topSentences)
qed

lemma sorted_selectSentences: "sorted (map index (selectSentences mathLog stopwords meta r m opts))"
proof (cases "deduplicateSimilar opts")
  case False
  show ?thesis unfolding selectSentences_plain [OF False] by (rule sorted_sortBy_index)
next
  case True
  show ?thesis unfolding selectSentences_dedup [OF True] by (rule sorted_sortBy_index)
qed

lemma length_paragraphMetadata [simp]:
  "length (paragraphMetadata stopwords opts np pIdx g p) = length (splitSentences p)"
  by (simp add: paragraphMetadata_def Let_def)

lemma map_enumerate_fst: "map (\<lambda>(l, t). f l) (enumerate 0 xs) = map f [0..<length xs]"
proof -
  have "map (\<lambda>(l, t). f l) (enumerate 0 xs) = map (f \<circ> fst) (enumerate 0 xs)"
    by (simp add: case_prod_unfold comp_def)
  also have "\<dots> = map f (map fst (enumerate 0 xs))" by (simp only: map_map)
  also have "\<dots> = map f [0..<length xs]" by simp
  finally show ?thesis .
qed

lemma index_paragraphMetadata:
  "map index (paragraphMetadata stopwords opts np pIdx g p) = [g..<g + length (splitSentences p)]"
proof -
  have "map index (paragraphMetadata stopwords opts np pIdx g p)
          = map (\<lambda>(l, t). g + l) (enumerate 0 (splitSentences p))"
    by (simp add: paragraphMetadata_def Let_def case_prod_unfold)
  also have "\<dots> = map (\<lambda>l. g + l) [0..<length (splitSentences p)]"
    by (rule map_enumerate_fst)
  also have "\<dots> = [g..<g + length (splitSentences p)]"
    by (simp add: map_add_upt add.commute)
  finally show ?thesis .
qed

lemma paragraph_paragraphMetadata:
  "s \<in> set (paragraphMetadata stopwords opts np pIdx g p) \<Longrightarrow> paragraph' s = pIdx"
  by (auto simp: paragraphMetadata_def Let_def)

lemma index_collectMetadata:
  "map index (collectMetadata stopwords opts np pIdx g ps)
     = [g..<g + length (collectMetadata stopwords opts np pIdx g ps)]"
proof (induction ps arbitrary: pIdx g)
  case Nil
  then show ?case by simp
next
  case (Cons p ps)
  let ?k = "length (splitSentences p)"
  let ?rest = "collectMetadata stopwords opts np (pIdx + 1) (g + ?k) ps"
  have "map index (collectMetadata stopwords opts np pIdx g (p # ps))
          = [g..<g + ?k] @ [g + ?k..<g + ?k + length ?rest]"
    using Cons.IH [of "pIdx + 1" "g + ?k"] by (simp add: Let_def index_paragraphMetadata)
  also have "\<dots> = [g..<g + ?k + length ?rest]"
    by (simp add: upt_add_eq_append [symmetric])
  finally show ?case by (simp add: Let_def add.assoc)
qed

lemma paragraph_collectMetadata_ge:
  "s \<in> set (collectMetadata stopwords opts np pIdx g ps) \<Longrightarrow> pIdx \<le> paragraph' s"
proof (induction ps arbitrary: pIdx g)
  case Nil
  then show ?case by simp
next
  case (Cons p ps)
  from Cons.prems have "s \<in> set (paragraphMetadata stopwords opts np pIdx g p)
      \<or> s \<in> set (collectMetadata stopwords opts np (pIdx + 1) (g + length (splitSentences p)) ps)"
    by (simp add: Let_def)
  then show ?case
  proof
    assume "s \<in> set (paragraphMetadata stopwords opts np pIdx g p)"
    then show ?thesis by (simp add: paragraph_paragraphMetadata)
  next
    assume "s \<in> set (collectMetadata stopwords opts np (pIdx + 1) (g + length (splitSentences p)) ps)"
    then have "pIdx + 1 \<le> paragraph' s" by (rule Cons.IH)
    then show ?thesis by simp
  qed
qed

lemma sorted_paragraph_collectMetadata:
  "sorted (map paragraph' (collectMetadata stopwords opts np pIdx g ps))"
proof (induction ps arbitrary: pIdx g)
  case Nil
  then show ?case by simp
next
  case (Cons p ps)
  let ?here = "paragraphMetadata stopwords opts np pIdx g p"
  let ?rest = "collectMetadata stopwords opts np (pIdx + 1) (g + length (splitSentences p)) ps"
  have h: "sorted (map paragraph' ?here)"
  proof -
    have "map paragraph' ?here = map (\<lambda>_. pIdx) ?here"
      by (rule map_cong) (simp_all add: paragraph_paragraphMetadata)
    then have "map paragraph' ?here = replicate (length ?here) pIdx"
      by (simp only: map_replicate_const)
    then show ?thesis by (simp add: sorted_replicate)
  qed
  have r: "sorted (map paragraph' ?rest)" by (rule Cons.IH)
  have "\<forall>x\<in>set (map paragraph' ?here). \<forall>y\<in>set (map paragraph' ?rest). x \<le> y"
    using paragraph_paragraphMetadata paragraph_collectMetadata_ge by fastforce
  then show ?case using h r by (simp add: Let_def sorted_append)
qed

subsection \<open>Grouping by paragraph\<close>

lemma mapSet_new: "k \<notin> fst ` set m \<Longrightarrow> mapSet k v m = m @ [(k, v)]"
  by (induction m) auto

lemma mapSet_last: "k \<notin> fst ` set init \<Longrightarrow> mapSet k v (init @ [(k, w)]) = init @ [(k, v)]"
  by (induction init) auto

lemma map_of_last: "k \<notin> fst ` set init \<Longrightarrow> map_of (init @ [(k, w)]) k = Some w"
  by (induction init) auto

lemma groupsOk_Nil [simp]: "groupsOk []"
  by (simp add: groupsOk_def)

lemma groupsOk_last_key:
  assumes "groupsOk acc" "p \<in> fst ` set acc" "\<forall>k\<in>fst ` set acc. k \<le> p"
  shows "\<exists>init ss. acc = init @ [(p, ss)] \<and> p \<notin> fst ` set init"
proof -
  from assms(2) have ne: "acc \<noteq> []" by auto
  obtain k ss where l: "last acc = (k, ss)" by (cases "last acc")
  have acc: "acc = butlast acc @ [(k, ss)]" using ne l by (metis append_butlast_last_id)
  have "sorted_wrt (<) (map fst (butlast acc @ [(k, ss)]))"
    using assms(1) acc by (simp add: groupsOk_def)
  then have lt: "\<forall>x\<in>fst ` set (butlast acc). x < k"
    by (auto simp: sorted_wrt_append)
  have kp: "k \<le> p" using assms(3) acc by (metis fst_conv image_eqI in_set_conv_decomp)
  have "p \<notin> fst ` set (butlast acc)" using lt kp by auto
  moreover have "p = k"
  proof -
    have "p \<in> fst ` set (butlast acc) \<or> p = k" using assms(2) acc
      by (metis (no_types, lifting) Un_iff fst_conv image_Un image_insert insertE list.set(1,2) set_append singletonD image_empty)
    then show ?thesis using \<open>p \<notin> fst ` set (butlast acc)\<close> by simp
  qed
  ultimately show ?thesis using acc by blast
qed

lemma groupByParagraph_sorted:
  assumes "groupsOk acc"
    and "\<forall>k\<in>fst ` set acc. \<forall>s\<in>set sel. k \<le> paragraph' s"
    and "sorted (map paragraph' sel)"
  shows "\<exists>g. groupByParagraph acc sel = Inr g \<and> groupsOk g
              \<and> concat (map snd g) = concat (map snd acc) @ sel"
  using assms
proof (induction sel arbitrary: acc)
  case Nil
  then show ?case by simp
next
  case (Cons s rest)
  let ?p = "paragraph' s"
  have keys_le: "\<forall>k\<in>fst ` set acc. k \<le> ?p" using Cons.prems(2) by simp
  have rest_ge: "\<forall>s'\<in>set rest. ?p \<le> paragraph' s'" using Cons.prems(3) by simp
  have rest_sorted: "sorted (map paragraph' rest)" using Cons.prems(3) by simp
  show ?case
  proof (cases "?p \<in> fst ` set acc")
    case True
    then obtain init ss where acc: "acc = init @ [(?p, ss)]" and ni: "?p \<notin> fst ` set init"
      using groupsOk_last_key [OF Cons.prems(1) True keys_le] by blast
    have look: "map_of acc ?p = Some ss" unfolding acc using ni by (rule map_of_last)
    let ?acc' = "init @ [(?p, ss @ [s])]"
    have set': "mapSet ?p (ss @ [s]) acc = ?acc'" using acc ni by (simp add: mapSet_last)
    have step: "groupByParagraph acc (s # rest) = groupByParagraph ?acc' rest"
      using look set' by simp
    have ok: "groupsOk ?acc'"
      using Cons.prems(1) unfolding acc groupsOk_def by simp
    have keys: "\<forall>k\<in>fst ` set ?acc'. \<forall>s'\<in>set rest. k \<le> paragraph' s'"
      using Cons.prems(2) unfolding acc by auto
    obtain g where g: "groupByParagraph ?acc' rest = Inr g" "groupsOk g"
        "concat (map snd g) = concat (map snd ?acc') @ rest"
      using Cons.IH [OF ok keys rest_sorted] by blast
    have "concat (map snd ?acc') @ rest = concat (map snd acc) @ s # rest"
      unfolding acc by simp
    then show ?thesis using g step by simp
  next
    case False
    have look: "map_of acc ?p = None" using False by (simp add: map_of_eq_None_iff)
    have m: "mapSet ?p [] acc = acc @ [(?p, [])]" using False by (rule mapSet_new)
    have look2: "map_of (acc @ [(?p, [])]) ?p = Some []" using False by (rule map_of_last)
    let ?acc' = "acc @ [(?p, [s])]"
    have set': "mapSet ?p ([] @ [s]) (acc @ [(?p, [])]) = ?acc'"
      using False by (simp add: mapSet_last)
    have step: "groupByParagraph acc (s # rest) = groupByParagraph ?acc' rest"
      using look m look2 set' by simp
    have lt: "\<forall>k\<in>fst ` set acc. k < ?p"
      using keys_le False by (metis le_neq_implies_less)
    have ok: "groupsOk ?acc'"
      using Cons.prems(1) lt unfolding groupsOk_def by (auto simp: sorted_wrt_append)
    have keys: "\<forall>k\<in>fst ` set ?acc'. \<forall>s'\<in>set rest. k \<le> paragraph' s'"
      using Cons.prems(2) rest_ge by auto
    obtain g where g: "groupByParagraph ?acc' rest = Inr g" "groupsOk g"
        "concat (map snd g) = concat (map snd ?acc') @ rest"
      using Cons.IH [OF ok keys rest_sorted] by blast
    then show ?thesis using step by simp
  qed
qed

text \<open>The grouping never raises, whatever the order of the sentences.\<close>
lemma groupByParagraph_total: "\<exists>g. groupByParagraph acc sel = Inr g"
proof (induction sel arbitrary: acc)
  case Nil
  then show ?case by simp
next
  case (Cons s rest)
  let ?p = "paragraph' s"
  let ?m = "if map_of acc ?p = None then mapSet ?p [] acc else acc"
  have "map_of ?m ?p \<noteq> None"
  proof (cases "map_of acc ?p = None")
    case True
    then have "?p \<notin> fst ` set acc" by (simp add: map_of_eq_None_iff)
    then have "map_of (mapSet ?p [] acc) ?p = Some []"
      using mapSet_new [of ?p acc "[]"] map_of_last [of ?p acc "[]"] by simp
    moreover have "?m = mapSet ?p [] acc" using True by (rule if_P)
    ultimately show ?thesis by simp
  next
    case False
    then have "?m = acc" by (rule if_not_P)
    with False show ?thesis by metis
  qed
  then obtain ss where ss: "map_of ?m ?p = Some ss" by blast
  have "groupByParagraph acc (s # rest) = groupByParagraph (mapSet ?p (ss @ [s]) ?m) rest"
    using ss by (simp add: Let_def)
  then show ?case using Cons.IH by simp
qed

subsection \<open>The sentences of a document\<close>

lemma splitParagraphs_Nil [simp]: "splitParagraphs [] = []"
  by (simp add: splitParagraphs_def trim_def)

lemma documentSentences_Nil [simp]: "documentSentences stopwords opts [] = []"
  by (simp add: documentSentences_def)

lemma length_collectMetadata:
  "length (collectMetadata stopwords opts np pIdx g ps) = sum_list (map (\<lambda>p. length (splitSentences p)) ps)"
  by (induction ps arbitrary: pIdx g) (simp_all add: Let_def)

lemma length_documentSentences:
  "length (documentSentences stopwords opts text)
     = sum_list (map (\<lambda>p. length (splitSentences p)) (splitParagraphs text))"
  by (simp add: documentSentences_def length_collectMetadata)

lemma summarize_few:
  assumes "splitParagraphs text \<noteq> []" "length (documentSentences stopwords opts text) \<le> 1"
  shows "summarize mathLog stopwords text r m opts = Inr text"
proof -
  have "text \<noteq> []" using assms(1) by auto
  then show ?thesis using assms
    by (simp add: summarize_def Let_def documentSentences_def)
qed

lemma summarize_many:
  assumes "2 \<le> length (documentSentences stopwords opts text)"
  shows "summarize mathLog stopwords text r m opts =
     (case groupByParagraph [] (selectSentences mathLog stopwords (documentSentences stopwords opts text) r m opts) of
        Inl e \<Rightarrow> Inl e
      | Inr sentencesByParagraph \<Rightarrow> Inr (assemble sentencesByParagraph))"
proof -
  have t: "text \<noteq> []" using assms by auto
  have p: "splitParagraphs text \<noteq> []" using assms by (auto simp: documentSentences_def)
  have n: "\<not> length (documentSentences stopwords opts text) \<le> 1" using assms by linarith
  show ?thesis using t p n
    by (simp add: summarize_def Let_def documentSentences_def)
qed

lemma index_documentSentences:
  "map index (documentSentences stopwords opts text) = [0..<length (documentSentences stopwords opts text)]"
  using index_collectMetadata [of stopwords opts "length (splitParagraphs text)" 0 0 "splitParagraphs text"]
  by (simp add: documentSentences_def)

lemma sorted_paragraph_documentSentences:
  "sorted (map paragraph' (documentSentences stopwords opts text))"
  by (simp add: documentSentences_def sorted_paragraph_collectMetadata)

text \<open>The paragraph number grows with the global index.\<close>
lemma paragraph_mono_index:
  assumes "a \<in> set (documentSentences stopwords opts text)"
    and "b \<in> set (documentSentences stopwords opts text)"
    and "index a \<le> index b"
  shows "paragraph' a \<le> paragraph' b"
proof -
  let ?d = "documentSentences stopwords opts text"
  obtain i where i: "i < length ?d" "?d ! i = a" using assms(1) by (auto simp: in_set_conv_nth)
  obtain j where j: "j < length ?d" "?d ! j = b" using assms(2) by (auto simp: in_set_conv_nth)
  have "index (?d ! i) = [0..<length ?d] ! i"
    using i(1) index_documentSentences [of stopwords opts "text"] by (metis nth_map)
  then have ia: "index a = i" using i by simp
  have "index (?d ! j) = [0..<length ?d] ! j"
    using j(1) index_documentSentences [of stopwords opts "text"] by (metis nth_map)
  then have jb: "index b = j" using j by simp
  have "i \<le> j" using assms(3) ia jb by simp
  then have "map paragraph' ?d ! i \<le> map paragraph' ?d ! j"
    using sorted_paragraph_documentSentences [of stopwords opts "text"] j(1)
    by (simp add: sorted_iff_nth_mono del: nth_map)
  then show ?thesis using i j by simp
qed

lemma sorted_paragraph_selectSentences:
  "sorted (map paragraph' (selectSentences mathLog stopwords (documentSentences stopwords opts text) r m opts'))"
proof -
  let ?d = "documentSentences stopwords opts text"
  let ?sel = "selectSentences mathLog stopwords ?d r m opts'"
  have s: "sorted_wrt (\<lambda>a b. index a \<le> index b) ?sel"
    using sorted_selectSentences [of mathLog stopwords ?d r m opts'] by (simp add: sorted_map)
  have sub: "set ?sel \<subseteq> set ?d" by (rule set_selectSentences)
  have "sorted_wrt (\<lambda>a b. paragraph' a \<le> paragraph' b) ?sel"
    using s
  proof (rule sorted_wrt_mono_rel [rotated])
    fix a b
    assume "a \<in> set ?sel" "b \<in> set ?sel" "index a \<le> index b"
    then show "paragraph' a \<le> paragraph' b"
      using sub paragraph_mono_index [of a stopwords opts "text" b] by blast
  qed
  then show ?thesis by (simp add: sorted_map)
qed

lemma groups_of_selection:
  "\<exists>groups. groupByParagraph [] (selectSentences mathLog stopwords (documentSentences stopwords opts text) r m opts') = Inr groups
     \<and> groupsOk groups
     \<and> concat (map snd groups) = selectSentences mathLog stopwords (documentSentences stopwords opts text) r m opts'"
  using groupByParagraph_sorted [of "[]" "selectSentences mathLog stopwords (documentSentences stopwords opts text) r m opts'"]
    sorted_paragraph_selectSentences [of mathLog stopwords opts "text" r m opts']
  by simp

lemma length_selectSentences_plain:
  assumes "\<not> deduplicateSimilar opts"
  shows "int (length (selectSentences mathLog stopwords meta r m opts)) =
     (case sentenceCount (length meta) r m of
        Integer k \<Rightarrow> if k < 0 then max (int (length meta) + k) 0 else min k (int (length meta))
      | PlusInfinity \<Rightarrow> int (length meta)
      | NotANumber \<Rightarrow> 0)"
  unfolding selectSentences_plain [OF assms]
  by (simp only: length_sortBy length_map length_slice0)

lemma distinct_index_selectSentences_plain:
  assumes "\<not> deduplicateSimilar opts'"
  shows "distinct (map index (selectSentences mathLog stopwords (documentSentences stopwords opts text) r m opts'))"
proof -
  let ?d = "documentSentences stopwords opts text"
  let ?g = "\<lambda>s. case scoreSentences stopwords ?d (calculateTfIdf mathLog stopwords (map text' ?d)) (index s) of
                   None \<Rightarrow> (0::real) | Some v \<Rightarrow> v"
  let ?scored = "map (\<lambda>s. (s, ?g s)) ?d"
  have "distinct (map index ?d)" by (simp add: index_documentSentences)
  moreover have "map (index \<circ> fst) ?scored = map index ?d" by (simp add: comp_def)
  ultimately have "distinct (map (index \<circ> fst) ?scored)" by (simp only:)
  then have "distinct (map (index \<circ> fst) (slice0 (sortBy (\<lambda>a b. fsub (snd b) (snd a)) ?scored)
                 (sentenceCount (length ?d) r m)))"
    by (intro distinct_map_slice0) (simp only: distinct_map_sortBy)
  then have "distinct (map index (map fst (slice0 (sortBy (\<lambda>a b. fsub (snd b) (snd a)) ?scored)
                 (sentenceCount (length ?d) r m))))"
    by (simp only: map_map)
  then show ?thesis
    unfolding selectSentences_plain [OF assms] by (simp only: distinct_map_sortBy)
qed

lemma paragraphMetadata_entry:
  assumes "s \<in> set (paragraphMetadata stopwords opts np pIdx g p)"
  shows "\<exists>l. l < length (splitSentences p)
           \<and> index s = g + l
           \<and> paragraph' s = pIdx
           \<and> text' s = splitSentences p ! l
           \<and> position s = (if favorPositionScore opts
                             then positionScore np pIdx (length (splitSentences p)) l else 0.5)"
proof -
  from assms obtain e where e: "e \<in> set (enumerate 0 (splitSentences p))"
    and s: "s = \<lparr> index = g + fst e, text' = snd e, paragraph' = pIdx,
                   length' = length (tokenizeWords stopwords (snd e) False),
                   position = (if favorPositionScore opts
                               then positionScore np pIdx (length (splitSentences p)) (fst e)
                               else 0.5) \<rparr>"
    by (auto simp: paragraphMetadata_def Let_def)
  from e have "fst e < length (splitSentences p)" "splitSentences p ! fst e = snd e"
    by (simp_all add: in_set_enumerate_eq)
  then show ?thesis using s by auto
qed

lemma collectMetadata_entry:
  assumes "s \<in> set (collectMetadata stopwords opts np pIdx g ps)"
  shows "\<exists>k l. k < length ps \<and> l < length (splitSentences (ps ! k))
           \<and> paragraph' s = pIdx + k
           \<and> text' s = splitSentences (ps ! k) ! l
           \<and> position s = (if favorPositionScore opts
                             then positionScore np (pIdx + k) (length (splitSentences (ps ! k))) l
                             else 0.5)"
  using assms
proof (induction ps arbitrary: pIdx g)
  case Nil
  then show ?case by simp
next
  case (Cons p ps)
  from Cons.prems have "s \<in> set (paragraphMetadata stopwords opts np pIdx g p)
      \<or> s \<in> set (collectMetadata stopwords opts np (pIdx + 1) (g + length (splitSentences p)) ps)"
    by (simp add: Let_def)
  then show ?case
  proof
    assume "s \<in> set (paragraphMetadata stopwords opts np pIdx g p)"
    then obtain l where "l < length (splitSentences p)" "paragraph' s = pIdx"
        "text' s = splitSentences p ! l"
        "position s = (if favorPositionScore opts
                       then positionScore np pIdx (length (splitSentences p)) l else 0.5)"
      using paragraphMetadata_entry by blast
    then have "0 < length (p # ps) \<and> l < length (splitSentences ((p # ps) ! 0))
           \<and> paragraph' s = pIdx + 0
           \<and> text' s = splitSentences ((p # ps) ! 0) ! l
           \<and> position s = (if favorPositionScore opts
                             then positionScore np (pIdx + 0) (length (splitSentences ((p # ps) ! 0))) l
                             else 0.5)"
      by simp
    then show ?thesis by blast
  next
    assume "s \<in> set (collectMetadata stopwords opts np (pIdx + 1) (g + length (splitSentences p)) ps)"
    then obtain k l where kl: "k < length ps" "l < length (splitSentences (ps ! k))"
        "paragraph' s = pIdx + 1 + k" "text' s = splitSentences (ps ! k) ! l"
        "position s = (if favorPositionScore opts
                       then positionScore np (pIdx + 1 + k) (length (splitSentences (ps ! k))) l
                       else 0.5)"
      using Cons.IH by blast
    then have "Suc k < length (p # ps) \<and> l < length (splitSentences ((p # ps) ! Suc k))
           \<and> paragraph' s = pIdx + Suc k
           \<and> text' s = splitSentences ((p # ps) ! Suc k) ! l
           \<and> position s = (if favorPositionScore opts
                             then positionScore np (pIdx + Suc k) (length (splitSentences ((p # ps) ! Suc k))) l
                             else 0.5)"
      by simp
    then show ?thesis by blast
  qed
qed

subsection \<open>The assembled output\<close>

lemma splitSentences_nonempty: "x \<in> set (splitSentences p) \<Longrightarrow> x \<noteq> []"
  by (auto simp: splitSentences_def Let_def)

text \<open>Every sentence of the document is a non-empty sentence of its own paragraph.\<close>
lemma text_documentSentences:
  assumes "s \<in> set (documentSentences stopwords opts text)"
  shows "paragraph' s < length (splitParagraphs text)
         \<and> text' s \<in> set (splitSentences (splitParagraphs text ! paragraph' s))
         \<and> text' s \<noteq> []"
proof -
  let ?ps = "splitParagraphs text"
  from assms obtain k l where kl: "k < length ?ps" "l < length (splitSentences (?ps ! k))"
      "paragraph' s = 0 + k" "text' s = splitSentences (?ps ! k) ! l"
    unfolding documentSentences_def using collectMetadata_entry by blast
  have k: "paragraph' s = k" using kl(3) by simp
  have m: "text' s \<in> set (splitSentences (?ps ! k))" unfolding kl(4) using kl(2) by (rule nth_mem)
  then have "text' s \<noteq> []" by (rule splitSentences_nonempty)
  then show ?thesis using kl(1) m unfolding k by simp
qed

lemma sortBy_sorted_id: "sorted (map index xs) \<Longrightarrow> sortBy byIndex xs = xs"
proof (induction xs)
  case Nil
  then show ?case by (simp add: sortBy_def)
next
  case (Cons x xs)
  then have xs: "sortBy byIndex xs = xs" by simp
  have "sortBy byIndex (x # xs) = insertBy byIndex x (sortBy byIndex xs)" by (simp add: sortBy_def)
  also have "\<dots> = insertBy byIndex x xs" by (simp only: xs)
  also have "\<dots> = x # xs" using Cons.prems by (cases xs) (simp_all add: byIndex_le_0_iff)
  finally show ?case .
qed

lemma sorted_map_concat:
  "sorted (map f (concat xss)) \<Longrightarrow> xs \<in> set xss \<Longrightarrow> sorted (map f xs)"
  by (induction xss) (auto simp: sorted_append)

lemma joinWith_nonempty: "ps \<noteq> [] \<Longrightarrow> hd ps \<noteq> [] \<Longrightarrow> joinWith sep ps \<noteq> []"
  by (induction sep ps rule: joinWith.induct) simp_all

text \<open>The assembly of groups that are sorted and have no empty text: neither the second
  sort nor the test of line 208 changes anything.\<close>
lemma assemble_lines:
  assumes "\<And>k ss. (k, ss) \<in> set groups \<Longrightarrow>
             ss \<noteq> [] \<and> sorted (map index ss) \<and> (\<forall>s\<in>set ss. text' s \<noteq> [])"
  shows "assemble groups
           = joinWith [CHR 0x0A, CHR 0x0A] (map (\<lambda>(k, ss). joinWith '' '' (map text' ss)) groups)"
proof -
  have m: "map (\<lambda>(paragraphIdx, sentences). joinWith '' '' (map text' (sortBy byIndex sentences))) groups
             = map (\<lambda>(k, ss). joinWith '' '' (map text' ss)) groups"
  proof (rule map_cong [OF refl])
    fix g assume g: "g \<in> set groups"
    obtain k ss where kss: "g = (k, ss)" by (cases g)
    have "sortBy byIndex ss = ss" using assms g kss by (intro sortBy_sorted_id) blast
    then show "(case g of (paragraphIdx, sentences) \<Rightarrow> joinWith '' '' (map text' (sortBy byIndex sentences)))
                 = (case g of (k, ss) \<Rightarrow> joinWith '' '' (map text' ss))"
      by (simp add: kss)
  qed
  have f: "filter (\<lambda>paragraphSummary. paragraphSummary \<noteq> [])
             (map (\<lambda>(k, ss). joinWith '' '' (map text' ss)) groups)
           = map (\<lambda>(k, ss). joinWith '' '' (map text' ss)) groups"
  proof (rule filter_True, rule ballI)
    fix x assume "x \<in> set (map (\<lambda>(k, ss). joinWith '' '' (map text' ss)) groups)"
    then obtain k ss where g: "(k, ss) \<in> set groups" and x: "x = joinWith '' '' (map text' ss)"
      by auto
    have ne: "ss \<noteq> []" and tx: "\<forall>s\<in>set ss. text' s \<noteq> []" using assms [OF g] by blast+
    have "map text' ss \<noteq> []" using ne by simp
    moreover have "hd (map text' ss) \<noteq> []" using ne tx by (cases ss) simp_all
    ultimately show "x \<noteq> []" unfolding x by (rule joinWith_nonempty)
  qed
  show ?thesis unfolding assemble_def m f ..
qed

lemma inDocumentOrder_same_paragraph:
  "\<forall>s\<in>set ss. paragraph' s = k \<Longrightarrow> inDocumentOrder ss = joinWith '' '' (map text' ss)"
  by (induction ss rule: inDocumentOrder.induct) simp_all

lemma inDocumentOrder_append:
  "xs \<noteq> [] \<Longrightarrow> ys \<noteq> [] \<Longrightarrow> paragraph' (last xs) \<noteq> paragraph' (hd ys) \<Longrightarrow>
   inDocumentOrder (xs @ ys)
     = inDocumentOrder xs @ [CHR 0x0A, CHR 0x0A] @ inDocumentOrder ys"
proof (induction xs rule: inDocumentOrder.induct)
  case 1
  then show ?case by simp
next
  case (2 s)
  then show ?case by (cases ys) simp_all
next
  case (3 s t rest)
  then show ?case by simp
qed

lemma lines_inDocumentOrder:
  "groupsOk groups \<Longrightarrow>
   joinWith [CHR 0x0A, CHR 0x0A] (map (\<lambda>(k, ss). joinWith '' '' (map text' ss)) groups)
     = inDocumentOrder (concat (map snd groups))"
proof (induction groups rule: induct_list012)
  case 1
  then show ?case by simp
next
  case (2 g)
  obtain k ss where g: "g = (k, ss)" by (cases g)
  have "\<forall>s\<in>set ss. paragraph' s = k" using 2 by (simp add: groupsOk_def g list_all_iff)
  then have "inDocumentOrder ss = joinWith '' '' (map text' ss)"
    by (rule inDocumentOrder_same_paragraph)
  then show ?case by (simp add: g)
next
  case (3 g g' rest)
  obtain k ss where g: "g = (k, ss)" by (cases g)
  obtain k' ss' where g': "g' = (k', ss')" by (cases g')
  have ok: "groupsOk (g' # rest)" using "3.prems" by (simp add: groupsOk_def)
  have k: "\<forall>s\<in>set ss. paragraph' s = k" and ne: "ss \<noteq> []"
    using "3.prems" by (simp_all add: groupsOk_def g list_all_iff)
  have k': "\<forall>s\<in>set ss'. paragraph' s = k'" and ne': "ss' \<noteq> []"
    using "3.prems" by (simp_all add: groupsOk_def g' list_all_iff)
  have lt: "k < k'" using "3.prems" by (simp add: groupsOk_def g g')
  let ?ys = "concat (map snd (g' # rest))"
  have ys: "?ys \<noteq> []" using ne' by (simp add: g')
  have "hd ?ys = hd ss'" using ne' by (simp add: g')
  then have "paragraph' (hd ?ys) = k'" using k' ne' by simp
  moreover have "paragraph' (last ss) = k" using k ne by simp
  ultimately have d: "paragraph' (last ss) \<noteq> paragraph' (hd ?ys)" using lt by simp
  have "joinWith [CHR 0x0A, CHR 0x0A] (map (\<lambda>(k, ss). joinWith '' '' (map text' ss)) (g # g' # rest))
          = joinWith '' '' (map text' ss) @ [CHR 0x0A, CHR 0x0A]
              @ joinWith [CHR 0x0A, CHR 0x0A] (map (\<lambda>(k, ss). joinWith '' '' (map text' ss)) (g' # rest))"
    by (simp add: g)
  also have "\<dots> = inDocumentOrder ss @ [CHR 0x0A, CHR 0x0A] @ inDocumentOrder ?ys"
    using "3.IH"(2) [OF ok] inDocumentOrder_same_paragraph [OF k] by (simp only:)
  also have "\<dots> = inDocumentOrder (ss @ ?ys)"
    using inDocumentOrder_append [OF ne ys d] by simp
  finally show ?case by (simp add: g)
qed

text \<open>The output of a document of two sentences or more: one line per group of the map,
  the groups being those of the selection.\<close>
lemma summarize_lines:
  assumes "2 \<le> length (documentSentences stopwords opts text)"
  shows "\<exists>groups.
           groupByParagraph []
             (selectSentences mathLog stopwords (documentSentences stopwords opts text) r m opts)
             = Inr groups
         \<and> groupsOk groups
         \<and> concat (map snd groups)
             = selectSentences mathLog stopwords (documentSentences stopwords opts text) r m opts
         \<and> summarize mathLog stopwords text r m opts
             = Inr (joinWith [CHR 0x0A, CHR 0x0A]
                      (map (\<lambda>(k, ss). joinWith '' '' (map text' ss)) groups))"
proof -
  let ?d = "documentSentences stopwords opts text"
  let ?sel = "selectSentences mathLog stopwords ?d r m opts"
  obtain groups where g: "groupByParagraph [] ?sel = Inr groups" "groupsOk groups"
      "concat (map snd groups) = ?sel"
    using groups_of_selection [of mathLog stopwords opts "text" r m opts] by blast
  have s: "summarize mathLog stopwords text r m opts = Inr (assemble groups)"
    using summarize_many [OF assms, of mathLog r m] g(1) by simp
  have "assemble groups
          = joinWith [CHR 0x0A, CHR 0x0A] (map (\<lambda>(k, ss). joinWith '' '' (map text' ss)) groups)"
  proof (rule assemble_lines)
    fix k ss assume in_g: "(k, ss) \<in> set groups"
    have ne: "ss \<noteq> []" using g(2) in_g by (auto simp: groupsOk_def list_all_iff)
    have "sorted (map index (concat (map snd groups)))"
      unfolding g(3) by (rule sorted_selectSentences)
    moreover have "ss \<in> set (map snd groups)" using in_g by force
    ultimately have so: "sorted (map index ss)" by (rule sorted_map_concat)
    have "set ss \<subseteq> set (concat (map snd groups))" using in_g by force
    also have "\<dots> \<subseteq> set ?d" unfolding g(3) by (rule set_selectSentences)
    finally have "\<forall>s\<in>set ss. text' s \<noteq> []" using text_documentSentences by blast
    then show "ss \<noteq> [] \<and> sorted (map index ss) \<and> (\<forall>s\<in>set ss. text' s \<noteq> [])"
      using ne so by blast
  qed
  then show ?thesis using g s by simp
qed

subsection \<open>The size of the selection\<close>

lemma foldl_step_length:
  assumes "\<And>acc c. length acc \<le> length (f acc c)"
  shows "length acc \<le> length (foldl f acc cs)"
proof (induction cs arbitrary: acc)
  case Nil
  then show ?case by simp
next
  case (Cons c cs)
  have "length acc \<le> length (f acc c)" by (rule assms)
  also have "\<dots> \<le> length (foldl f (f acc c) cs)" by (rule Cons.IH)
  finally show ?case by simp
qed

text \<open>The first candidate is always kept.\<close>
lemma deduplicateSentences_nonempty:
  assumes "cands \<noteq> []"
  shows "deduplicateSentences stopwords cands th \<noteq> []"
proof -
  obtain c cs where cands: "cands = c # cs" using assms by (cases cands) auto
  let ?f = "\<lambda>result candidate.
              let isDuplicate =
                    list_ex (\<lambda>selected.
                       calculateSimilarity stopwords (text' candidate) (text' selected) > th) result
              in if \<not> isDuplicate then result @ [candidate] else result"
  have "length (?f [] c) \<le> length (foldl ?f (?f [] c) cs)"
    by (rule foldl_step_length) (simp add: Let_def)
  moreover have "?f [] c = [c]" by simp
  ultimately have "1 \<le> length (foldl ?f [] (c # cs))" by simp
  then show ?thesis unfolding deduplicateSentences_def cands by auto
qed

lemma sortBy_eq_Nil_iff: "sortBy cmp xs = [] \<longleftrightarrow> xs = []"
  using length_sortBy [of cmp xs] by (metis length_0_conv)

text \<open>A selection of as many sentences as the document has is the whole document.\<close>
lemma full_selection:
  assumes "set sel \<subseteq> set docs" "sorted_wrt (<) (map index sel)" "length sel = length docs"
    and "map index docs = [0..<length docs]"
  shows "sel = docs"
proof -
  have ss: "sorted (map index sel)" and ds: "distinct (map index sel)"
    using assms(2) by (simp_all add: strict_sorted_iff)
  have sd: "sorted (map index docs)" and dd: "distinct (map index docs)"
    by (simp_all add: assms(4))
  have "distinct sel" using ds by (simp add: distinct_map)
  then have "card (set sel) = length docs" using assms(3) by (simp add: distinct_card)
  moreover have "card (set docs) \<le> length docs" by (rule card_length)
  ultimately have "card (set docs) \<le> card (set sel)" by simp
  then have eq: "set sel = set docs" using assms(1) by (intro card_seteq) simp_all
  have "set (map index sel) = set (map index docs)" by (simp add: eq)
  then have m: "map index sel = map index docs"
    using ss ds sd dd by (intro sorted_distinct_set_unique)
  have "inj_on index (set sel \<union> set docs)" using dd by (simp add: eq distinct_map)
  then show ?thesis using m by (simp add: inj_on_map_eq_map)
qed

lemma slice0_nonempty:
  assumes "xs \<noteq> []" "(\<exists>k. e = Integer k \<and> 1 \<le> k) \<or> e = PlusInfinity"
  shows "slice0 xs e \<noteq> []"
proof -
  have "1 \<le> int (length xs)" using assms(1) by (cases xs) simp_all
  then have "1 \<le> int (length (slice0 xs e))"
    using assms(2) unfolding length_slice0 by auto
  then show ?thesis by auto
qed

lemma sentenceCount_zero: "sentenceCount n r (Some 0) = sentenceCount n r None"
  by (simp add: sentenceCount_def)

lemma sentenceCount_ratio:
  "sentenceCount n (Finite r) None = Integer (max 1 \<lfloor>fmul (real n) r\<rfloor>)"
  "0 < n \<Longrightarrow> sentenceCount n PosInfinity None = PlusInfinity"
  "0 < n \<Longrightarrow> sentenceCount n NegInfinity None = Integer 1"
  "sentenceCount n NaN None = NotANumber"
  by (simp_all add: sentenceCount_def)

lemma sentenceCount_positive:
  assumes "0 < n" "r \<noteq> NaN"
  shows "(\<exists>k. sentenceCount n r None = Integer k \<and> 1 \<le> k) \<or> sentenceCount n r None = PlusInfinity"
  using assms by (cases r) (simp_all add: sentenceCount_def)

lemma selectSentences_zero:
  "selectSentences mathLog stopwords meta r (Some 0) opts
     = selectSentences mathLog stopwords meta r None opts"
  by (simp only: selectSentences_def sentenceCount_zero)

lemma summarize_zero:
  "summarize mathLog stopwords text r (Some 0) opts = summarize mathLog stopwords text r None opts"
  by (simp only: summarize_def selectSentences_zero)

lemma selectSentences_nonempty:
  assumes "meta \<noteq> []"
    and "(\<exists>k. sentenceCount (length meta) r m = Integer k \<and> 1 \<le> k)
         \<or> sentenceCount (length meta) r m = PlusInfinity"
  shows "selectSentences mathLog stopwords meta r m opts \<noteq> []"
proof -
  let ?c = "sentenceCount (length meta) r m"
  let ?scored = "map (\<lambda>s. (s, case scoreSentences stopwords meta
                                         (calculateTfIdf mathLog stopwords (map text' meta)) (index s) of
                                     None \<Rightarrow> (0::real) | Some v \<Rightarrow> v)) meta"
  let ?sorted = "sortBy (\<lambda>a b. fsub (snd b) (snd a)) ?scored"
  have so: "?sorted \<noteq> []" using assms(1) by (simp add: sortBy_eq_Nil_iff)
  show ?thesis
  proof (cases "deduplicateSimilar opts")
    case False
    have "slice0 ?sorted ?c \<noteq> []" using so assms(2) by (rule slice0_nonempty)
    then show ?thesis
      unfolding selectSentences_plain [OF False] sortBy_eq_Nil_iff by simp
  next
    case True
    let ?top = "map fst (slice0 ?sorted (timesTwo ?c))"
    let ?dd = "deduplicateSentences stopwords ?top (round53 0.6)"
    have "(\<exists>k. timesTwo ?c = Integer k \<and> 1 \<le> k) \<or> timesTwo ?c = PlusInfinity"
      using assms(2) by (auto simp: timesTwo_def)
    with so have "slice0 ?sorted (timesTwo ?c) \<noteq> []" by (rule slice0_nonempty)
    then have "?top \<noteq> []" by simp
    then have "?dd \<noteq> []" by (rule deduplicateSentences_nonempty)
    then have "slice0 ?dd ?c \<noteq> []" using assms(2) by (rule slice0_nonempty)
    then show ?thesis unfolding selectSentences_dedup [OF True] sortBy_eq_Nil_iff .
  qed
qed

lemma selectSentences_NaN:
  "selectSentences mathLog stopwords meta NaN None opts = []"
proof (cases "deduplicateSimilar opts")
  case False
  show ?thesis
    unfolding selectSentences_plain [OF False] sortBy_eq_Nil_iff
    by (simp add: sentenceCount_ratio slice0_def)
next
  case True
  show ?thesis
    unfolding selectSentences_dedup [OF True] sortBy_eq_Nil_iff
    by (simp add: sentenceCount_ratio slice0_def)
qed

lemma length_selectSentences_le:
  assumes "sentenceCount (length meta) r m = Integer k" "0 \<le> k"
  shows "int (length (selectSentences mathLog stopwords meta r m opts)) \<le> k"
proof (cases "deduplicateSimilar opts")
  case False
  show ?thesis
    using length_selectSentences_plain [OF False, of mathLog stopwords meta r m] assms by simp
next
  case True
  show ?thesis
    unfolding selectSentences_dedup [OF True] length_sortBy length_slice0 assms(1)
    using assms(2) by simp
qed

subsection \<open>Example documents\<close>

lemma length_two_sentences:
  "length (documentSentences stopwords opts ''A b. C d.'') = 2"
  by (simp add: length_documentSentences splitParagraphs_def splitSentences_def trim_def
        isSpace_def isUpper_def isLower_def isTerminal_def startsSentence_def code_def)

lemma length_five_sentences:
  "length (documentSentences stopwords opts (''A b. C d. E f.'' @ CHR 0x0A # ''G h. I j.'')) = 5"
  by (simp add: length_documentSentences splitParagraphs_def splitSentences_def trim_def
        isSpace_def isUpper_def isLower_def isTerminal_def startsSentence_def code_def)

lemma fmul_2_2: "fmul 2 2 = 4"
proof -
  have "round53 (of_int (2 ^ 52) / 2 ^ 50) = of_int (2 ^ 52) / 2 ^ 50"
    by (rule round53_exact_div) simp_all
  moreover have "of_int (2 ^ 52) / 2 ^ 50 = (4::real)" by simp
  ultimately show ?thesis by (simp add: fmul_def)
qed

lemma projection_paragraphMetadata:
  "map (\<lambda>s. (paragraph' s, text' s)) (paragraphMetadata stopwords opts np pIdx g p)
     = map (Pair pIdx) (splitSentences p)"
proof -
  have "map (\<lambda>s. (paragraph' s, text' s)) (paragraphMetadata stopwords opts np pIdx g p)
          = map (Pair pIdx \<circ> snd) (enumerate 0 (splitSentences p))"
    by (simp add: paragraphMetadata_def Let_def case_prod_unfold comp_def)
  also have "\<dots> = map (Pair pIdx) (map snd (enumerate 0 (splitSentences p)))"
    by (simp only: map_map)
  finally show ?thesis by simp
qed

lemma two_paragraphs:
  "map (\<lambda>s. (paragraph' s, text' s))
     (documentSentences stopwords opts (''A b.'' @ CHR 0x0A # ''C d.''))
     = [(0, ''A b.''), (1, ''C d.'')]"
  by (simp add: documentSentences_def Let_def projection_paragraphMetadata
        splitParagraphs_def splitSentences_def trim_def
        isSpace_def isUpper_def isLower_def isTerminal_def startsSentence_def code_def)

lemma five_sentences:
  "map (\<lambda>s. (paragraph' s, text' s))
     (documentSentences stopwords opts (''A b. C d. E f.'' @ CHR 0x0A # ''G h. I j.''))
     = [(0, ''A b.''), (0, ''C d.''), (0, ''E f.''), (1, ''G h.''), (1, ''I j.'')]"
  by (simp add: documentSentences_def Let_def projection_paragraphMetadata
        splitParagraphs_def splitSentences_def trim_def
        isSpace_def isUpper_def isLower_def isTerminal_def startsSentence_def code_def)

lemma ratio_03_bounds: "1/4 \<le> round53 0.3" "round53 0.3 \<le> 3/8"
proof -
  have "round53 (of_int (2 ^ 52) / 2 ^ 54) = of_int (2 ^ 52) / 2 ^ 54"
    by (rule round53_exact_div) simp_all
  moreover have "of_int (2 ^ 52) / 2 ^ 54 = (1/4 :: real)" by simp
  ultimately have lo: "round53 (1/4) = 1/4" by simp
  have "round53 (of_int (3 * 2 ^ 51) / 2 ^ 54) = of_int (3 * 2 ^ 51) / 2 ^ 54"
    by (rule round53_exact_div) simp_all
  moreover have "of_int (3 * 2 ^ 51) / 2 ^ 54 = (3/8 :: real)" by simp
  ultimately have hi: "round53 (3/8) = 3/8" by simp
  have "round53 (1/4) \<le> round53 0.3" by (rule round53_mono) simp
  then show "1/4 \<le> round53 0.3" by (simp add: lo)
  have "round53 0.3 \<le> round53 (3/8)" by (rule round53_mono) simp
  then show "round53 0.3 \<le> 3/8" by (simp add: hi)
qed

text \<open>\<open>Math.floor(5 * 0.3)\<close> is 1.\<close>
lemma floor_5_ratio_03: "\<lfloor>fmul 5 (round53 0.3)\<rfloor> = 1"
proof -
  have "round53 (of_int (5 * 2 ^ 50) / 2 ^ 52) = of_int (5 * 2 ^ 50) / 2 ^ 52"
    by (rule round53_exact_div) simp_all
  moreover have "of_int (5 * 2 ^ 50) / 2 ^ 52 = (5/4 :: real)" by simp
  ultimately have lo: "round53 (5/4) = 5/4" by simp
  have "round53 (of_int (15 * 2 ^ 49) / 2 ^ 52) = of_int (15 * 2 ^ 49) / 2 ^ 52"
    by (rule round53_exact_div) simp_all
  moreover have "of_int (15 * 2 ^ 49) / 2 ^ 52 = (15/8 :: real)" by simp
  ultimately have hi: "round53 (15/8) = 15/8" by simp
  have "round53 (5/4) \<le> round53 (5 * round53 0.3)"
    by (rule round53_mono) (use ratio_03_bounds(1) in simp)
  then have a: "1 \<le> fmul 5 (round53 0.3)" by (simp add: lo fmul_def)
  have "round53 (5 * round53 0.3) \<le> round53 (15/8)"
    by (rule round53_mono) (use ratio_03_bounds(2) in simp)
  then have b: "fmul 5 (round53 0.3) < 2" by (simp add: hi fmul_def)
  show ?thesis using a b by linarith
qed

lemma no_paragraphs_example: "splitParagraphs ('' '' @ [CHR 0x0A, CHR 0x0A] @ ''  '') = []"
  by (simp add: splitParagraphs_def trim_def isSpace_def code_def)

lemma one_paragraph_example: "splitParagraphs '' Hello world.  '' \<noteq> []"
  by (simp add: splitParagraphs_def trim_def isSpace_def code_def)

lemma one_sentence_example:
  "length (documentSentences stopwords opts '' Hello world.  '') = 1"
  by (simp add: length_documentSentences splitParagraphs_def splitSentences_def trim_def
        isSpace_def isUpper_def isLower_def isTerminal_def startsSentence_def code_def)

subsection \<open>The claims about the selection and the output\<close>

text \<open>
  C3 (as amended). For a document of at least two sentences, without deduplication:
  a positive \<open>maxSentences\<close> selects \<open>min(maxSentences, total)\<close> sentences; a missing
  or zero \<open>maxSentences\<close> with a finite \<open>summaryRatio\<close> selects
  \<open>max(1, floor(total * summaryRatio))\<close> sentences, but never more than there are (with
  \<open>+Infinity\<close> all sentences, with \<open>-Infinity\<close> one, with NaN none). The selected
  sentences are sentences of the document in strictly ascending document order, and the
  output is exactly their texts in that order, joined by a space inside a paragraph and
  by a blank line between two paragraphs.
\<close>
theorem summarize_selection_count:
  assumes "2 \<le> length (documentSentences stopwords opts text)"
    and "\<not> deduplicateSimilar opts"
  shows "(\<forall>m. maxSentences = Some m \<and> 0 < m \<longrightarrow>
            int (length (selectSentences mathLog stopwords (documentSentences stopwords opts text)
                           summaryRatio maxSentences opts))
              = min m (int (length (documentSentences stopwords opts text))))
       \<and> (maxSentences = None \<or> maxSentences = Some 0 \<longrightarrow>
            (\<forall>r. summaryRatio = Finite r \<longrightarrow>
               int (length (selectSentences mathLog stopwords (documentSentences stopwords opts text)
                              summaryRatio maxSentences opts))
                 = min (int (length (documentSentences stopwords opts text)))
                       (max 1 \<lfloor>fmul (real (length (documentSentences stopwords opts text))) r\<rfloor>))
          \<and> (summaryRatio = PosInfinity \<longrightarrow>
               length (selectSentences mathLog stopwords (documentSentences stopwords opts text)
                         summaryRatio maxSentences opts)
                 = length (documentSentences stopwords opts text))
          \<and> (summaryRatio = NegInfinity \<longrightarrow>
               length (selectSentences mathLog stopwords (documentSentences stopwords opts text)
                         summaryRatio maxSentences opts) = 1)
          \<and> (summaryRatio = NaN \<longrightarrow>
               length (selectSentences mathLog stopwords (documentSentences stopwords opts text)
                         summaryRatio maxSentences opts) = 0))
       \<and> sorted_wrt (<) (map index (selectSentences mathLog stopwords
                                         (documentSentences stopwords opts text)
                                         summaryRatio maxSentences opts))
       \<and> set (selectSentences mathLog stopwords (documentSentences stopwords opts text)
                 summaryRatio maxSentences opts)
           \<subseteq> set (documentSentences stopwords opts text)
       \<and> summarize mathLog stopwords text summaryRatio maxSentences opts
           = Inr (inDocumentOrder
                    (selectSentences mathLog stopwords (documentSentences stopwords opts text)
                       summaryRatio maxSentences opts))"
proof -
  let ?d = "documentSentences stopwords opts text"
  let ?sel = "selectSentences mathLog stopwords ?d summaryRatio maxSentences opts"
  let ?c = "sentenceCount (length ?d) summaryRatio maxSentences"
  have n: "0 < length ?d" using assms(1) by linarith
  have len: "int (length ?sel) =
     (case ?c of
        Integer k \<Rightarrow> if k < 0 then max (int (length ?d) + k) 0 else min k (int (length ?d))
      | PlusInfinity \<Rightarrow> int (length ?d)
      | NotANumber \<Rightarrow> 0)"
    using assms(2) by (rule length_selectSentences_plain)
  have a: "int (length ?sel) = min m (int (length ?d))" if "maxSentences = Some m \<and> 0 < m" for m
  proof -
    have ceq: "?c = Integer (min m (int (length ?d)))" using that by (simp add: sentenceCount_def)
    have "\<not> min m (int (length ?d)) < 0" using that by (simp add: min_def)
    then show ?thesis unfolding len ceq by simp
  qed
  have c0: "?c = sentenceCount (length ?d) summaryRatio None"
    if "maxSentences = None \<or> maxSentences = Some 0"
    using that sentenceCount_zero by auto
  have b1: "int (length ?sel) = min (int (length ?d)) (max 1 \<lfloor>fmul (real (length ?d)) r\<rfloor>)"
    if "maxSentences = None \<or> maxSentences = Some 0" "summaryRatio = Finite r" for r
  proof -
    have "?c = Integer (max 1 \<lfloor>fmul (real (length ?d)) r\<rfloor>)"
      using c0 [OF that(1)] that(2) by (simp add: sentenceCount_ratio)
    then show ?thesis using len by (simp add: min.commute)
  qed
  have b2: "length ?sel = length ?d"
    if "maxSentences = None \<or> maxSentences = Some 0" "summaryRatio = PosInfinity"
  proof -
    have "?c = PlusInfinity" using c0 [OF that(1)] that(2) n by (simp add: sentenceCount_ratio)
    then show ?thesis using len by simp
  qed
  have b3: "length ?sel = 1"
    if "maxSentences = None \<or> maxSentences = Some 0" "summaryRatio = NegInfinity"
  proof -
    have "?c = Integer 1" using c0 [OF that(1)] that(2) n by (simp add: sentenceCount_ratio)
    then show ?thesis using len assms(1) by simp
  qed
  have b4: "length ?sel = 0"
    if "maxSentences = None \<or> maxSentences = Some 0" "summaryRatio = NaN"
  proof -
    have "?c = NotANumber" using c0 [OF that(1)] that(2) by (simp add: sentenceCount_ratio)
    then show ?thesis using len by simp
  qed
  have c: "sorted_wrt (<) (map index ?sel)"
    using sorted_selectSentences [of mathLog stopwords ?d summaryRatio maxSentences opts]
      distinct_index_selectSentences_plain [OF assms(2), of mathLog stopwords opts "text" summaryRatio maxSentences]
    by (simp add: strict_sorted_iff)
  have s: "set ?sel \<subseteq> set ?d" by (rule set_selectSentences)
  obtain groups where g: "groupsOk groups" "concat (map snd groups) = ?sel"
      "summarize mathLog stopwords text summaryRatio maxSentences opts
         = Inr (joinWith [CHR 0x0A, CHR 0x0A]
                  (map (\<lambda>(k, ss). joinWith '' '' (map text' ss)) groups))"
    using summarize_lines [OF assms(1), of mathLog summaryRatio maxSentences] by blast
  have d: "summarize mathLog stopwords text summaryRatio maxSentences opts = Inr (inDocumentOrder ?sel)"
    unfolding g(3) lines_inDocumentOrder [OF g(1)] g(2) ..
  show ?thesis using a b1 b2 b3 b4 c s d by blast
qed

theorem summarize_selection_count_witness:
  "2 \<le> length (documentSentences {} \<lparr>deduplicateSimilar = False, favorPositionScore = False\<rparr>
                 (''A b. C d. E f.'' @ CHR 0x0A # ''G h. I j.''))
   \<and> \<not> deduplicateSimilar \<lparr>deduplicateSimilar = False, favorPositionScore = False\<rparr>
   \<and> length (selectSentences flog {}
        (documentSentences {} \<lparr>deduplicateSimilar = False, favorPositionScore = False\<rparr>
           (''A b. C d. E f.'' @ CHR 0x0A # ''G h. I j.''))
        (Finite (round53 0.3)) (Some 2) \<lparr>deduplicateSimilar = False, favorPositionScore = False\<rparr>) = 2
   \<and> sorted_wrt (<) (map index (selectSentences flog {}
        (documentSentences {} \<lparr>deduplicateSimilar = False, favorPositionScore = False\<rparr>
           (''A b. C d. E f.'' @ CHR 0x0A # ''G h. I j.''))
        (Finite (round53 0.3)) (Some 2) \<lparr>deduplicateSimilar = False, favorPositionScore = False\<rparr>))
   \<and> summarize flog {} (''A b. C d. E f.'' @ CHR 0x0A # ''G h. I j.'') (Finite (round53 0.3)) (Some 2)
         \<lparr>deduplicateSimilar = False, favorPositionScore = False\<rparr>
       = Inr (inDocumentOrder (selectSentences flog {}
                (documentSentences {} \<lparr>deduplicateSimilar = False, favorPositionScore = False\<rparr>
                   (''A b. C d. E f.'' @ CHR 0x0A # ''G h. I j.''))
                (Finite (round53 0.3)) (Some 2) \<lparr>deduplicateSimilar = False, favorPositionScore = False\<rparr>))
   \<and> length (selectSentences flog {}
        (documentSentences {} \<lparr>deduplicateSimilar = False, favorPositionScore = False\<rparr>
           (''A b. C d. E f.'' @ CHR 0x0A # ''G h. I j.''))
        (Finite (round53 0.3)) None \<lparr>deduplicateSimilar = False, favorPositionScore = False\<rparr>) = 1
   \<and> selectSentences flog {}
        (documentSentences {} \<lparr>deduplicateSimilar = False, favorPositionScore = False\<rparr>
           (''A b. C d. E f.'' @ CHR 0x0A # ''G h. I j.''))
        (Finite (round53 0.3)) (Some 5) \<lparr>deduplicateSimilar = False, favorPositionScore = False\<rparr>
       = documentSentences {} \<lparr>deduplicateSimilar = False, favorPositionScore = False\<rparr>
           (''A b. C d. E f.'' @ CHR 0x0A # ''G h. I j.'')
   \<and> summarize flog {} (''A b. C d. E f.'' @ CHR 0x0A # ''G h. I j.'') (Finite (round53 0.3)) (Some 5)
         \<lparr>deduplicateSimilar = False, favorPositionScore = False\<rparr>
       = Inr (''A b. C d. E f.'' @ [CHR 0x0A, CHR 0x0A] @ ''G h. I j.'')"
proof -
  let ?o = "\<lparr>deduplicateSimilar = False, favorPositionScore = False\<rparr>"
  let ?t = "''A b. C d. E f.'' @ CHR 0x0A # ''G h. I j.''"
  let ?r = "Finite (round53 0.3)"
  let ?d = "documentSentences {} ?o ?t"
  have n: "length ?d = 5" by (rule length_five_sentences)
  have h1: "2 \<le> length ?d" unfolding n by simp
  have h2: "\<not> deduplicateSimilar ?o" by simp
  note t2 = summarize_selection_count [OF h1 h2, where mathLog = flog and summaryRatio = ?r
                and maxSentences = "Some 2"]
  note t5 = summarize_selection_count [OF h1 h2, where mathLog = flog and summaryRatio = ?r
                and maxSentences = "Some 5"]
  note t0 = summarize_selection_count [OF h1 h2, where mathLog = flog and summaryRatio = ?r
                and maxSentences = None]
  have "int (length (selectSentences flog {} ?d ?r (Some 2) ?o)) = min 2 (int (length ?d))"
    using t2 [THEN conjunct1] by simp
  then have a: "length (selectSentences flog {} ?d ?r (Some 2) ?o) = 2" unfolding n by simp
  have b: "sorted_wrt (<) (map index (selectSentences flog {} ?d ?r (Some 2) ?o))"
    by (rule t2 [THEN conjunct2, THEN conjunct2, THEN conjunct1])
  have c: "summarize flog {} ?t ?r (Some 2) ?o
             = Inr (inDocumentOrder (selectSentences flog {} ?d ?r (Some 2) ?o))"
    by (rule t2 [THEN conjunct2, THEN conjunct2, THEN conjunct2, THEN conjunct2])
  have "int (length (selectSentences flog {} ?d ?r None ?o))
          = min (int (length ?d)) (max 1 \<lfloor>fmul (real (length ?d)) (round53 0.3)\<rfloor>)"
    using t0 [THEN conjunct2, THEN conjunct1] by simp
  then have d: "length (selectSentences flog {} ?d ?r None ?o) = 1"
    unfolding n by (simp add: floor_5_ratio_03)
  have "int (length (selectSentences flog {} ?d ?r (Some 5) ?o)) = min 5 (int (length ?d))"
    using t5 [THEN conjunct1] by simp
  then have l5: "length (selectSentences flog {} ?d ?r (Some 5) ?o) = length ?d" unfolding n by simp
  have e: "selectSentences flog {} ?d ?r (Some 5) ?o = ?d"
    using t5 [THEN conjunct2, THEN conjunct2, THEN conjunct2, THEN conjunct1]
      t5 [THEN conjunct2, THEN conjunct2, THEN conjunct1] l5
    by (rule full_selection) (rule index_documentSentences)
  have "\<exists>d0 d1 d2 d3 d4. ?d = [d0, d1, d2, d3, d4]
          \<and> paragraph' d0 = 0 \<and> text' d0 = ''A b.'' \<and> paragraph' d1 = 0 \<and> text' d1 = ''C d.''
          \<and> paragraph' d2 = 0 \<and> text' d2 = ''E f.'' \<and> paragraph' d3 = 1 \<and> text' d3 = ''G h.''
          \<and> paragraph' d4 = 1 \<and> text' d4 = ''I j.''"
    using five_sentences [of "{}" ?o] by (auto simp: map_eq_Cons_conv)
  then obtain d0 d1 d2 d3 d4 where ds: "?d = [d0, d1, d2, d3, d4]"
      "paragraph' d0 = 0" "text' d0 = ''A b.''" "paragraph' d1 = 0" "text' d1 = ''C d.''"
      "paragraph' d2 = 0" "text' d2 = ''E f.''" "paragraph' d3 = 1" "text' d3 = ''G h.''"
      "paragraph' d4 = 1" "text' d4 = ''I j.''"
    by blast
  have "inDocumentOrder ?d = ''A b. C d. E f.'' @ [CHR 0x0A, CHR 0x0A] @ ''G h. I j.''"
    unfolding ds(1) by (simp add: ds(2-))
  then have f: "summarize flog {} ?t ?r (Some 5) ?o
             = Inr (''A b. C d. E f.'' @ [CHR 0x0A, CHR 0x0A] @ ''G h. I j.'')"
    using t5 [THEN conjunct2, THEN conjunct2, THEN conjunct2, THEN conjunct2] e by simp
  show ?thesis by (intro conjI h1 h2 a b c d e f)
qed

text \<open>
  C3 as it is written fails. With \<open>summaryRatio = 2\<close> and no maximum, a document of
  two sentences would need \<open>max(1, floor(2 * 2)) = 4\<close> selected sentences; there are
  two. With \<open>maxSentences = 0\<close>, a supplied maximum, \<open>min(0, 2) = 0\<close> sentences
  would be selected; one is. With a NaN \<open>summaryRatio\<close> and no maximum no sentence is
  selected, where the claim has at least one.
\<close>
theorem summarize_selection_count_counterexample:
  "2 \<le> length (documentSentences {} \<lparr>deduplicateSimilar = False, favorPositionScore = False\<rparr> ''A b. C d.'')
   \<and> length (selectSentences flog {}
        (documentSentences {} \<lparr>deduplicateSimilar = False, favorPositionScore = False\<rparr> ''A b. C d.'')
        (Finite 2) None \<lparr>deduplicateSimilar = False, favorPositionScore = False\<rparr>) = 2
   \<and> max 1 \<lfloor>fmul (real (length
        (documentSentences {} \<lparr>deduplicateSimilar = False, favorPositionScore = False\<rparr> ''A b. C d.''))) 2\<rfloor> = 4
   \<and> length (selectSentences flog {}
        (documentSentences {} \<lparr>deduplicateSimilar = False, favorPositionScore = False\<rparr> ''A b. C d.'')
        (Finite (round53 0.3)) (Some 0) \<lparr>deduplicateSimilar = False, favorPositionScore = False\<rparr>) \<noteq> 0
   \<and> length (selectSentences flog {}
        (documentSentences {} \<lparr>deduplicateSimilar = False, favorPositionScore = False\<rparr> ''A b. C d.'')
        NaN None \<lparr>deduplicateSimilar = False, favorPositionScore = False\<rparr>) = 0"
proof -
  let ?o = "\<lparr>deduplicateSimilar = False, favorPositionScore = False\<rparr>"
  let ?d = "documentSentences {} ?o ''A b. C d.''"
  have n: "length ?d = 2" by (rule length_two_sentences)
  have ne: "?d \<noteq> []" using n by auto
  have h2: "\<not> deduplicateSimilar ?o" by simp
  have c1: "sentenceCount 2 (Finite 2) None = Integer 4"
    by (simp add: sentenceCount_ratio fmul_2_2)
  have "int (length (selectSentences flog {} ?d (Finite 2) None ?o)) = 2"
    using length_selectSentences_plain [OF h2, of flog "{}" ?d "Finite 2" None] by (simp add: n c1)
  then have a: "length (selectSentences flog {} ?d (Finite 2) None ?o) = 2" by simp
  have b: "max 1 \<lfloor>fmul (real (length ?d)) 2\<rfloor> = 4" by (simp add: n fmul_2_2)
  have "(\<exists>k. sentenceCount (length ?d) (Finite (round53 0.3)) (Some 0) = Integer k \<and> 1 \<le> k)
        \<or> sentenceCount (length ?d) (Finite (round53 0.3)) (Some 0) = PlusInfinity"
    by (simp add: sentenceCount_zero sentenceCount_ratio)
  with ne have "selectSentences flog {} ?d (Finite (round53 0.3)) (Some 0) ?o \<noteq> []"
    by (rule selectSentences_nonempty)
  then have c: "length (selectSentences flog {} ?d (Finite (round53 0.3)) (Some 0) ?o) \<noteq> 0" by simp
  have d: "length (selectSentences flog {} ?d NaN None ?o) = 0"
    by (simp add: selectSentences_NaN)
  have h: "2 \<le> length ?d" unfolding n by simp
  show ?thesis by (intro conjI h a b c d)
qed

text \<open>
  C8. Whenever \<open>summarize\<close> assembles an output (the document has at least two
  sentences), the output is the lines of the groups of the map, in the order of the map
  and separated by blank lines, the line of a group being the texts of its sentences
  joined by spaces. The paragraph numbers of the groups ascend strictly; each group is
  keyed by a paragraph of the input, is not empty, holds sentences of that paragraph only
  and gives a non-empty line; and the groups concatenated are the selection in ascending
  index order.
\<close>
theorem summarize_paragraph_order:
  assumes "2 \<le> length (documentSentences stopwords opts text)"
  shows "\<exists>groups.
           groupByParagraph []
             (selectSentences mathLog stopwords (documentSentences stopwords opts text)
                summaryRatio maxSentences opts) = Inr groups
         \<and> summarize mathLog stopwords text summaryRatio maxSentences opts
             = Inr (joinWith [CHR 0x0A, CHR 0x0A]
                      (map (\<lambda>(k, ss). joinWith '' '' (map text' ss)) groups))
         \<and> sorted_wrt (<) (map fst groups)
         \<and> list_all (\<lambda>(k, ss). k < length (splitParagraphs text) \<and> ss \<noteq> []
                        \<and> list_all (\<lambda>s. paragraph' s = k
                               \<and> text' s \<in> set (splitSentences (splitParagraphs text ! k))) ss
                        \<and> joinWith '' '' (map text' ss) \<noteq> []) groups
         \<and> concat (map snd groups)
             = selectSentences mathLog stopwords (documentSentences stopwords opts text)
                 summaryRatio maxSentences opts
         \<and> sorted (map index (concat (map snd groups)))"
proof -
  let ?d = "documentSentences stopwords opts text"
  let ?sel = "selectSentences mathLog stopwords ?d summaryRatio maxSentences opts"
  obtain groups where g: "groupByParagraph [] ?sel = Inr groups" "groupsOk groups"
      "concat (map snd groups) = ?sel"
      "summarize mathLog stopwords text summaryRatio maxSentences opts
         = Inr (joinWith [CHR 0x0A, CHR 0x0A]
                  (map (\<lambda>(k, ss). joinWith '' '' (map text' ss)) groups))"
    using summarize_lines [OF assms, of mathLog summaryRatio maxSentences] by blast
  have i: "sorted (map index (concat (map snd groups)))"
    unfolding g(3) by (rule sorted_selectSentences)
  have k: "sorted_wrt (<) (map fst groups)" using g(2) by (simp add: groupsOk_def)
  have each: "k < length (splitParagraphs text) \<and> ss \<noteq> []
              \<and> list_all (\<lambda>s. paragraph' s = k
                     \<and> text' s \<in> set (splitSentences (splitParagraphs text ! k))) ss
              \<and> joinWith '' '' (map text' ss) \<noteq> []"
    if in_g: "(k, ss) \<in> set groups" for k ss
  proof -
    have ne: "ss \<noteq> []" and par: "\<forall>s\<in>set ss. paragraph' s = k"
      using g(2) in_g by (auto simp: groupsOk_def list_all_iff)
    have "set ss \<subseteq> set (concat (map snd groups))" using in_g by force
    also have "\<dots> \<subseteq> set ?d" unfolding g(3) by (rule set_selectSentences)
    finally have sub: "set ss \<subseteq> set ?d" .
    have doc: "paragraph' s < length (splitParagraphs text)
         \<and> text' s \<in> set (splitSentences (splitParagraphs text ! paragraph' s))
         \<and> text' s \<noteq> []" if "s \<in> set ss" for s
      using that sub text_documentSentences by blast
    obtain s0 rest where ss: "ss = s0 # rest" using ne by (cases ss) auto
    have "k < length (splitParagraphs text)" using doc [of s0] par ss by simp
    moreover have "list_all (\<lambda>s. paragraph' s = k
                     \<and> text' s \<in> set (splitSentences (splitParagraphs text ! k))) ss"
      unfolding list_all_iff using doc par by metis
    moreover have "joinWith '' '' (map text' ss) \<noteq> []"
      by (rule joinWith_nonempty) (use doc [of s0] ss in simp_all)
    ultimately show ?thesis using ne by blast
  qed
  then have l: "list_all (\<lambda>(k, ss). k < length (splitParagraphs text) \<and> ss \<noteq> []
                        \<and> list_all (\<lambda>s. paragraph' s = k
                               \<and> text' s \<in> set (splitSentences (splitParagraphs text ! k))) ss
                        \<and> joinWith '' '' (map text' ss) \<noteq> []) groups"
    unfolding list_all_iff by blast
  show ?thesis using g(1) g(4) k l g(3) i by blast
qed

theorem summarize_paragraph_order_witness:
  "2 \<le> length (documentSentences {} \<lparr>deduplicateSimilar = False, favorPositionScore = True\<rparr>
                 (''A b.'' @ CHR 0x0A # ''C d.''))
   \<and> (\<exists>groups.
           groupByParagraph []
             (selectSentences flog {}
                (documentSentences {} \<lparr>deduplicateSimilar = False, favorPositionScore = True\<rparr>
                   (''A b.'' @ CHR 0x0A # ''C d.''))
                (Finite (round53 0.3)) (Some 2) \<lparr>deduplicateSimilar = False, favorPositionScore = True\<rparr>)
             = Inr groups
         \<and> summarize flog {} (''A b.'' @ CHR 0x0A # ''C d.'') (Finite (round53 0.3)) (Some 2)
              \<lparr>deduplicateSimilar = False, favorPositionScore = True\<rparr>
             = Inr (joinWith [CHR 0x0A, CHR 0x0A]
                      (map (\<lambda>(k, ss). joinWith '' '' (map text' ss)) groups))
         \<and> map fst groups = [0, 1]
         \<and> map (map text' \<circ> snd) groups = [[''A b.''], [''C d.'']]
         \<and> sorted_wrt (<) (map fst groups)
         \<and> list_all (\<lambda>(k, ss). k < length (splitParagraphs (''A b.'' @ CHR 0x0A # ''C d.'')) \<and> ss \<noteq> []
                        \<and> list_all (\<lambda>s. paragraph' s = k
                               \<and> text' s \<in> set (splitSentences
                                     (splitParagraphs (''A b.'' @ CHR 0x0A # ''C d.'') ! k))) ss
                        \<and> joinWith '' '' (map text' ss) \<noteq> []) groups
         \<and> concat (map snd groups)
             = selectSentences flog {}
                 (documentSentences {} \<lparr>deduplicateSimilar = False, favorPositionScore = True\<rparr>
                    (''A b.'' @ CHR 0x0A # ''C d.''))
                 (Finite (round53 0.3)) (Some 2) \<lparr>deduplicateSimilar = False, favorPositionScore = True\<rparr>
         \<and> sorted (map index (concat (map snd groups))))
   \<and> summarize flog {} (''A b.'' @ CHR 0x0A # ''C d.'') (Finite (round53 0.3)) (Some 2)
         \<lparr>deduplicateSimilar = False, favorPositionScore = True\<rparr>
       = Inr (''A b.'' @ [CHR 0x0A, CHR 0x0A] @ ''C d.'')"
proof -
  let ?o = "\<lparr>deduplicateSimilar = False, favorPositionScore = True\<rparr>"
  let ?t = "''A b.'' @ CHR 0x0A # ''C d.''"
  let ?r = "Finite (round53 0.3)"
  let ?d = "documentSentences {} ?o ?t"
  let ?sel = "selectSentences flog {} ?d ?r (Some 2) ?o"
  have "\<exists>d0 d1. ?d = [d0, d1]
          \<and> paragraph' d0 = 0 \<and> text' d0 = ''A b.'' \<and> paragraph' d1 = 1 \<and> text' d1 = ''C d.''"
    using two_paragraphs [of "{}" ?o] by (auto simp: map_eq_Cons_conv)
  then obtain d0 d1 where ds: "?d = [d0, d1]"
      "paragraph' d0 = 0" "text' d0 = ''A b.''" "paragraph' d1 = 1" "text' d1 = ''C d.''"
    by blast
  have n: "length ?d = 2" unfolding ds(1) by simp
  have h: "2 \<le> length ?d" unfolding n by simp
  have h2: "\<not> deduplicateSimilar ?o" by simp
  have c2: "sentenceCount 2 ?r (Some 2) = Integer 2"
    by (simp add: sentenceCount_def)
  have "int (length ?sel) = 2"
    unfolding length_selectSentences_plain [OF h2] c2 n by simp
  then have len: "length ?sel = length ?d" unfolding n by simp
  have srt: "sorted_wrt (<) (map index ?sel)"
    using sorted_selectSentences [of flog "{}" ?d ?r "Some 2" ?o]
      distinct_index_selectSentences_plain [OF h2, of flog "{}" ?o ?t ?r "Some 2"]
    by (simp add: strict_sorted_iff)
  have sel: "?sel = ?d"
    using set_selectSentences srt len by (rule full_selection) (rule index_documentSentences)
  have "groupByParagraph [] ?d = Inr [(0, [d0]), (1, [d1])]"
    unfolding ds(1) by (simp add: ds(2-))
  then have grp: "groupByParagraph [] ?sel = Inr [(0, [d0]), (1, [d1])]"
    by (simp only: sel)
  from summarize_paragraph_order [OF h, where mathLog = flog and summaryRatio = ?r
         and maxSentences = "Some 2"]
  obtain groups where g: "groupByParagraph [] ?sel = Inr groups"
      "summarize flog {} ?t ?r (Some 2) ?o
         = Inr (joinWith [CHR 0x0A, CHR 0x0A]
                  (map (\<lambda>(k, ss). joinWith '' '' (map text' ss)) groups))"
      "sorted_wrt (<) (map fst groups)"
      "list_all (\<lambda>(k, ss). k < length (splitParagraphs ?t) \<and> ss \<noteq> []
                        \<and> list_all (\<lambda>s. paragraph' s = k
                               \<and> text' s \<in> set (splitSentences (splitParagraphs ?t ! k))) ss
                        \<and> joinWith '' '' (map text' ss) \<noteq> []) groups"
      "concat (map snd groups) = ?sel"
      "sorted (map index (concat (map snd groups)))"
    by blast
  have eq: "groups = [(0, [d0]), (1, [d1])]" using g(1) grp by simp
  have k: "map fst groups = [0, 1]" by (simp add: eq)
  have tx: "map (map text' \<circ> snd) groups = [[''A b.''], [''C d.'']]" by (simp add: eq ds(2-))
  have out: "summarize flog {} ?t ?r (Some 2) ?o = Inr (''A b.'' @ [CHR 0x0A, CHR 0x0A] @ ''C d.'')"
    unfolding g(2) by (simp add: eq ds(2-))
  have "groupByParagraph [] ?sel = Inr groups
         \<and> summarize flog {} ?t ?r (Some 2) ?o
             = Inr (joinWith [CHR 0x0A, CHR 0x0A]
                      (map (\<lambda>(k, ss). joinWith '' '' (map text' ss)) groups))
         \<and> map fst groups = [0, 1]
         \<and> map (map text' \<circ> snd) groups = [[''A b.''], [''C d.'']]
         \<and> sorted_wrt (<) (map fst groups)
         \<and> list_all (\<lambda>(k, ss). k < length (splitParagraphs ?t) \<and> ss \<noteq> []
                        \<and> list_all (\<lambda>s. paragraph' s = k
                               \<and> text' s \<in> set (splitSentences (splitParagraphs ?t ! k))) ss
                        \<and> joinWith '' '' (map text' ss) \<noteq> []) groups
         \<and> concat (map snd groups) = ?sel
         \<and> sorted (map index (concat (map snd groups)))"
    by (intro conjI g k tx)
  then have ex: "\<exists>groups. groupByParagraph [] ?sel = Inr groups
         \<and> summarize flog {} ?t ?r (Some 2) ?o
             = Inr (joinWith [CHR 0x0A, CHR 0x0A]
                      (map (\<lambda>(k, ss). joinWith '' '' (map text' ss)) groups))
         \<and> map fst groups = [0, 1]
         \<and> map (map text' \<circ> snd) groups = [[''A b.''], [''C d.'']]
         \<and> sorted_wrt (<) (map fst groups)
         \<and> list_all (\<lambda>(k, ss). k < length (splitParagraphs ?t) \<and> ss \<noteq> []
                        \<and> list_all (\<lambda>s. paragraph' s = k
                               \<and> text' s \<in> set (splitSentences (splitParagraphs ?t ! k))) ss
                        \<and> joinWith '' '' (map text' ss) \<noteq> []) groups
         \<and> concat (map snd groups) = ?sel
         \<and> sorted (map index (concat (map snd groups)))"
    by (rule exI)
  show ?thesis by (intro conjI h ex out)
qed

text \<open>
  C9 (as amended). \<open>maxSentences = 0\<close> is taken as no maximum: the target count is the
  one computed from \<open>summaryRatio\<close>, the result is the result without a maximum, and
  so is the selection. For a document of at least two sentences that selection is not
  empty unless \<open>summaryRatio\<close> is NaN; with a finite \<open>summaryRatio\<close> it has at most
  \<open>max(1, floor(total * summaryRatio))\<close> sentences, and without deduplication exactly
  that many or all of them; with NaN the selection and the output are empty.
\<close>
theorem summarize_zero_maxSentences:
  "sentenceCount n summaryRatio (Some 0) = sentenceCount n summaryRatio None
   \<and> sentenceCount n (Finite r) (Some 0) = Integer (max 1 \<lfloor>fmul (real n) r\<rfloor>)
   \<and> summarize mathLog stopwords text summaryRatio (Some 0) opts
       = summarize mathLog stopwords text summaryRatio None opts
   \<and> (2 \<le> length (documentSentences stopwords opts text) \<longrightarrow>
        selectSentences mathLog stopwords (documentSentences stopwords opts text)
            summaryRatio (Some 0) opts
          = selectSentences mathLog stopwords (documentSentences stopwords opts text)
              summaryRatio None opts
        \<and> (summaryRatio \<noteq> NaN \<longrightarrow>
             selectSentences mathLog stopwords (documentSentences stopwords opts text)
               summaryRatio (Some 0) opts \<noteq> [])
        \<and> (summaryRatio = Finite r \<longrightarrow>
             int (length (selectSentences mathLog stopwords (documentSentences stopwords opts text)
                            summaryRatio (Some 0) opts))
               \<le> max 1 \<lfloor>fmul (real (length (documentSentences stopwords opts text))) r\<rfloor>
             \<and> (\<not> deduplicateSimilar opts \<longrightarrow>
                  int (length (selectSentences mathLog stopwords
                                 (documentSentences stopwords opts text) summaryRatio (Some 0) opts))
                    = min (int (length (documentSentences stopwords opts text)))
                          (max 1 \<lfloor>fmul (real (length (documentSentences stopwords opts text))) r\<rfloor>)))
        \<and> (summaryRatio = NaN \<longrightarrow>
             selectSentences mathLog stopwords (documentSentences stopwords opts text)
               summaryRatio (Some 0) opts = []
             \<and> summarize mathLog stopwords text summaryRatio (Some 0) opts = Inr []))"
proof -
  let ?d = "documentSentences stopwords opts text"
  let ?sel = "selectSentences mathLog stopwords ?d summaryRatio (Some 0) opts"
  have a: "sentenceCount n summaryRatio (Some 0) = sentenceCount n summaryRatio None"
    by (rule sentenceCount_zero)
  have b: "sentenceCount k (Finite r) (Some 0) = Integer (max 1 \<lfloor>fmul (real k) r\<rfloor>)" for k
    by (simp add: sentenceCount_zero sentenceCount_ratio)
  have c: "summarize mathLog stopwords text summaryRatio (Some 0) opts
             = summarize mathLog stopwords text summaryRatio None opts"
    by (rule summarize_zero)
  have d: "?sel = selectSentences mathLog stopwords ?d summaryRatio None opts"
    by (rule selectSentences_zero)
  have e: "?sel \<noteq> []" if "2 \<le> length ?d" "summaryRatio \<noteq> NaN"
  proof -
    have "0 < length ?d" using that(1) by linarith
    then have "(\<exists>k. sentenceCount (length ?d) summaryRatio None = Integer k \<and> 1 \<le> k)
               \<or> sentenceCount (length ?d) summaryRatio None = PlusInfinity"
      using that(2) by (rule sentenceCount_positive)
    moreover have "?d \<noteq> []" using that(1) by auto
    ultimately have "selectSentences mathLog stopwords ?d summaryRatio None opts \<noteq> []"
      by (intro selectSentences_nonempty)
    then show ?thesis unfolding d .
  qed
  have f: "int (length ?sel) \<le> max 1 \<lfloor>fmul (real (length ?d)) r\<rfloor>" if "summaryRatio = Finite r"
    unfolding that by (rule length_selectSentences_le [OF b]) simp
  have g: "int (length ?sel) = min (int (length ?d)) (max 1 \<lfloor>fmul (real (length ?d)) r\<rfloor>)"
    if "summaryRatio = Finite r" "\<not> deduplicateSimilar opts"
    using length_selectSentences_plain [OF that(2), of mathLog stopwords ?d "Finite r" "Some 0"]
    unfolding that(1) b by (simp add: min.commute)
  have h1: "?sel = []" if "summaryRatio = NaN"
  proof -
    have "?sel = selectSentences mathLog stopwords ?d NaN None opts" using d that by simp
    then show ?thesis by (simp only: selectSentences_NaN)
  qed
  have h2: "summarize mathLog stopwords text summaryRatio (Some 0) opts = Inr []"
    if "2 \<le> length ?d" "summaryRatio = NaN"
    using summarize_many [OF that(1), of mathLog summaryRatio "Some 0"] h1 [OF that(2)]
    by (simp add: assemble_def)
  show ?thesis using a b c d e f g h1 h2 by blast
qed

theorem summarize_zero_maxSentences_witness:
  "sentenceCount 5 (Finite (round53 0.3)) (Some 0) = sentenceCount 5 (Finite (round53 0.3)) None
   \<and> sentenceCount 5 (Finite (round53 0.3)) (Some 0) = Integer 1
   \<and> summarize flog {} (''A b. C d. E f.'' @ CHR 0x0A # ''G h. I j.'') (Finite (round53 0.3)) (Some 0)
         \<lparr>deduplicateSimilar = False, favorPositionScore = False\<rparr>
       = summarize flog {} (''A b. C d. E f.'' @ CHR 0x0A # ''G h. I j.'') (Finite (round53 0.3)) None
           \<lparr>deduplicateSimilar = False, favorPositionScore = False\<rparr>
   \<and> 2 \<le> length (documentSentences {} \<lparr>deduplicateSimilar = False, favorPositionScore = False\<rparr>
                   (''A b. C d. E f.'' @ CHR 0x0A # ''G h. I j.''))
   \<and> Finite (round53 0.3) \<noteq> NaN
   \<and> \<not> deduplicateSimilar \<lparr>deduplicateSimilar = False, favorPositionScore = False\<rparr>
   \<and> selectSentences flog {}
        (documentSentences {} \<lparr>deduplicateSimilar = False, favorPositionScore = False\<rparr>
           (''A b. C d. E f.'' @ CHR 0x0A # ''G h. I j.''))
        (Finite (round53 0.3)) (Some 0) \<lparr>deduplicateSimilar = False, favorPositionScore = False\<rparr> \<noteq> []
   \<and> length (selectSentences flog {}
        (documentSentences {} \<lparr>deduplicateSimilar = False, favorPositionScore = False\<rparr>
           (''A b. C d. E f.'' @ CHR 0x0A # ''G h. I j.''))
        (Finite (round53 0.3)) (Some 0) \<lparr>deduplicateSimilar = False, favorPositionScore = False\<rparr>) = 1
   \<and> selectSentences flog {}
        (documentSentences {} \<lparr>deduplicateSimilar = False, favorPositionScore = False\<rparr>
           (''A b. C d. E f.'' @ CHR 0x0A # ''G h. I j.''))
        NaN (Some 0) \<lparr>deduplicateSimilar = False, favorPositionScore = False\<rparr> = []
   \<and> summarize flog {} (''A b. C d. E f.'' @ CHR 0x0A # ''G h. I j.'') NaN (Some 0)
         \<lparr>deduplicateSimilar = False, favorPositionScore = False\<rparr> = Inr []"
proof -
  let ?o = "\<lparr>deduplicateSimilar = False, favorPositionScore = False\<rparr>"
  let ?t = "''A b. C d. E f.'' @ CHR 0x0A # ''G h. I j.''"
  let ?r = "Finite (round53 0.3)"
  let ?d = "documentSentences {} ?o ?t"
  have n: "length ?d = 5" by (rule length_five_sentences)
  have h: "2 \<le> length ?d" unfolding n by simp
  have h2: "\<not> deduplicateSimilar ?o" by simp
  have h3: "?r \<noteq> NaN" by simp
  note t = summarize_zero_maxSentences [of 5 ?r "round53 0.3" flog "{}" ?t ?o]
  note u = summarize_zero_maxSentences [of 5 NaN "round53 0.3" flog "{}" ?t ?o]
  note t4 = t [THEN conjunct2, THEN conjunct2, THEN conjunct2, THEN mp, OF h]
  note u4 = u [THEN conjunct2, THEN conjunct2, THEN conjunct2, THEN mp, OF h]
  have a: "sentenceCount 5 ?r (Some 0) = sentenceCount 5 ?r None" by (rule t [THEN conjunct1])
  have "sentenceCount 5 ?r (Some 0) = Integer (max 1 \<lfloor>fmul (real (5::nat)) (round53 0.3)\<rfloor>)"
    by (rule t [THEN conjunct2, THEN conjunct1])
  then have b: "sentenceCount 5 ?r (Some 0) = Integer 1" by (simp add: floor_5_ratio_03)
  have c: "summarize flog {} ?t ?r (Some 0) ?o = summarize flog {} ?t ?r None ?o"
    by (rule t [THEN conjunct2, THEN conjunct2, THEN conjunct1])
  have d: "selectSentences flog {} ?d ?r (Some 0) ?o \<noteq> []"
    by (rule t4 [THEN conjunct2, THEN conjunct1, THEN mp, OF h3])
  have "int (length (selectSentences flog {} ?d ?r (Some 0) ?o))
          = min (int (length ?d)) (max 1 \<lfloor>fmul (real (length ?d)) (round53 0.3)\<rfloor>)"
    by (rule t4 [THEN conjunct2, THEN conjunct2, THEN conjunct1, THEN mp, OF refl,
                 THEN conjunct2, THEN mp, OF h2])
  then have e: "length (selectSentences flog {} ?d ?r (Some 0) ?o) = 1"
    unfolding n by (simp add: floor_5_ratio_03)
  have f: "selectSentences flog {} ?d NaN (Some 0) ?o = []"
    by (rule u4 [THEN conjunct2, THEN conjunct2, THEN conjunct2, THEN mp, OF refl, THEN conjunct1])
  have g: "summarize flog {} ?t NaN (Some 0) ?o = Inr []"
    by (rule u4 [THEN conjunct2, THEN conjunct2, THEN conjunct2, THEN mp, OF refl, THEN conjunct2])
  show ?thesis by (intro conjI a b c h h3 h2 d e f g)
qed

text \<open>
  C9 as it is written fails for a \<open>summaryRatio\<close> that is NaN: the count computed from it
  is NaN, \<open>slice(0, NaN)\<close> is empty, and so are the selection and the output.
\<close>
theorem summarize_zero_maxSentences_counterexample:
  "2 \<le> length (documentSentences {} \<lparr>deduplicateSimilar = False, favorPositionScore = False\<rparr> ''A b. C d.'')
   \<and> selectSentences flog {}
        (documentSentences {} \<lparr>deduplicateSimilar = False, favorPositionScore = False\<rparr> ''A b. C d.'')
        NaN (Some 0) \<lparr>deduplicateSimilar = False, favorPositionScore = False\<rparr> = []
   \<and> summarize flog {} ''A b. C d.'' NaN (Some 0)
        \<lparr>deduplicateSimilar = False, favorPositionScore = False\<rparr> = Inr []"
proof -
  let ?o = "\<lparr>deduplicateSimilar = False, favorPositionScore = False\<rparr>"
  let ?d = "documentSentences {} ?o ''A b. C d.''"
  have h: "2 \<le> length ?d" unfolding length_two_sentences by simp
  have a: "selectSentences flog {} ?d NaN (Some 0) ?o = []"
    by (simp only: selectSentences_zero selectSentences_NaN)
  have b: "summarize flog {} ''A b. C d.'' NaN (Some 0) ?o = Inr []"
    using summarize_many [OF h, of flog NaN "Some 0"] a by (simp add: assemble_def)
  show ?thesis by (intro conjI h a b)
qed

text \<open>
  C2. The empty text gives the empty string; a text without a non-blank paragraph gives
  the empty string; a text with a non-blank paragraph and at most one sentence comes back
  as it is; and \<open>summarize\<close> never raises: every call returns a string.
\<close>
theorem summarize_degenerate:
  "summarize mathLog stopwords [] summaryRatio maxSentences opts = Inr []
   \<and> (splitParagraphs text = [] \<longrightarrow>
        summarize mathLog stopwords text summaryRatio maxSentences opts = Inr [])
   \<and> (splitParagraphs text \<noteq> [] \<and> length (documentSentences stopwords opts text) \<le> 1 \<longrightarrow>
        summarize mathLog stopwords text summaryRatio maxSentences opts = Inr text)
   \<and> (\<exists>out. summarize mathLog stopwords text summaryRatio maxSentences opts = Inr out)"
proof -
  let ?d = "documentSentences stopwords opts text"
  have a: "summarize mathLog stopwords [] summaryRatio maxSentences opts = Inr []"
    by (simp add: summarize_def)
  have b: "summarize mathLog stopwords text summaryRatio maxSentences opts = Inr []"
    if "splitParagraphs text = []"
    using that by (simp add: summarize_def Let_def)
  have c: "summarize mathLog stopwords text summaryRatio maxSentences opts = Inr text"
    if "splitParagraphs text \<noteq> [] \<and> length ?d \<le> 1"
    using that summarize_few by blast
  have d: "\<exists>out. summarize mathLog stopwords text summaryRatio maxSentences opts = Inr out"
  proof (cases "splitParagraphs text = []")
    case True
    then show ?thesis using b by blast
  next
    case False
    show ?thesis
    proof (cases "length ?d \<le> 1")
      case True
      then show ?thesis using False c by blast
    next
      case False
      then have many: "2 \<le> length ?d" by linarith
      obtain g where "groupByParagraph [] (selectSentences mathLog stopwords ?d summaryRatio maxSentences opts) = Inr g"
        using groupByParagraph_total by blast
      then have "summarize mathLog stopwords text summaryRatio maxSentences opts = Inr (assemble g)"
        using summarize_many [OF many, of mathLog summaryRatio maxSentences] by simp
      then show ?thesis by blast
    qed
  qed
  show ?thesis using a b c d by blast
qed

theorem summarize_degenerate_witness:
  "summarize flog {} [] (Finite (round53 0.3)) None
       \<lparr>deduplicateSimilar = False, favorPositionScore = False\<rparr> = Inr []
   \<and> splitParagraphs ('' '' @ [CHR 0x0A, CHR 0x0A] @ ''  '') = []
   \<and> summarize flog {} ('' '' @ [CHR 0x0A, CHR 0x0A] @ ''  '') (Finite (round53 0.3)) None
         \<lparr>deduplicateSimilar = False, favorPositionScore = False\<rparr> = Inr []
   \<and> splitParagraphs '' Hello world.  '' \<noteq> []
   \<and> length (documentSentences {} \<lparr>deduplicateSimilar = False, favorPositionScore = False\<rparr>
               '' Hello world.  '') \<le> 1
   \<and> summarize flog {} '' Hello world.  '' (Finite (round53 0.3)) None
         \<lparr>deduplicateSimilar = False, favorPositionScore = False\<rparr> = Inr '' Hello world.  ''"
proof -
  let ?o = "\<lparr>deduplicateSimilar = False, favorPositionScore = False\<rparr>"
  let ?blank = "'' '' @ [CHR 0x0A, CHR 0x0A] @ ''  ''"
  note t0 = summarize_degenerate [of flog "{}" "Finite (round53 0.3)" None ?o ?blank]
  note t1 = summarize_degenerate [of flog "{}" "Finite (round53 0.3)" None ?o "'' Hello world.  ''"]
  have p0: "splitParagraphs ?blank = []" by (rule no_paragraphs_example)
  have p1: "splitParagraphs '' Hello world.  '' \<noteq> []" by (rule one_paragraph_example)
  have n1: "length (documentSentences {} ?o '' Hello world.  '') \<le> 1"
    unfolding one_sentence_example by simp
  have a: "summarize flog {} [] (Finite (round53 0.3)) None ?o = Inr []" by (rule t0 [THEN conjunct1])
  have b: "summarize flog {} ?blank (Finite (round53 0.3)) None ?o = Inr []"
    by (rule t0 [THEN conjunct2, THEN conjunct1, THEN mp, OF p0])
  have c: "summarize flog {} '' Hello world.  '' (Finite (round53 0.3)) None ?o = Inr '' Hello world.  ''"
    by (rule t1 [THEN conjunct2, THEN conjunct2, THEN conjunct1, THEN mp, OF conjI [OF p1 n1]])
  show ?thesis by (intro conjI a p0 b p1 n1 c)
qed

subsection \<open>Position scores\<close>

lemma positionScore_range:
  "0 \<le> positionScore np pIdx cnt l" "positionScore np pIdx cnt l \<le> 1"
  by (simp_all add: positionScore_def Let_def)

text \<open>
  C6. With position-favoring enabled, the position score of every sentence is its base
  score (by its place \<open>l\<close> in its paragraph) times 1.2 in the first paragraph, times 1.1
  in the last paragraph when that is not the first, and unchanged elsewhere, then clamped
  to \<open>[0, 1]\<close>. In a document of one paragraph the factor is 1.2 and only that.
\<close>
theorem position_score_multiplier:
  assumes "favorPositionScore opts"
    and "s \<in> set (documentSentences stopwords opts text)"
  shows "\<exists>l. l < length (splitSentences (splitParagraphs text ! paragraph' s))
           \<and> paragraph' s < length (splitParagraphs text)
           \<and> text' s = splitSentences (splitParagraphs text ! paragraph' s) ! l
           \<and> position s =
               max 0 (min 1
                 (if paragraph' s = 0
                  then fmul (basePositionScore
                               (length (splitSentences (splitParagraphs text ! paragraph' s))) l)
                            (round53 1.2)
                  else if paragraph' s = length (splitParagraphs text) - 1
                  then fmul (basePositionScore
                               (length (splitSentences (splitParagraphs text ! paragraph' s))) l)
                            (round53 1.1)
                  else basePositionScore
                         (length (splitSentences (splitParagraphs text ! paragraph' s))) l))
           \<and> (length (splitParagraphs text) = 1 \<longrightarrow>
                position s =
                  max 0 (min 1
                    (fmul (basePositionScore
                             (length (splitSentences (splitParagraphs text ! paragraph' s))) l)
                          (round53 1.2))))
           \<and> 0 \<le> position s \<and> position s \<le> 1"
proof -
  let ?ps = "splitParagraphs text"
  from assms(2) obtain k l where kl: "k < length ?ps" "l < length (splitSentences (?ps ! k))"
      "paragraph' s = 0 + k" "text' s = splitSentences (?ps ! k) ! l"
      "position s = (if favorPositionScore opts
                     then positionScore (length ?ps) (0 + k) (length (splitSentences (?ps ! k))) l
                     else 0.5)"
    unfolding documentSentences_def using collectMetadata_entry by blast
  have k: "paragraph' s = k" using kl(3) by simp
  have pos: "position s = positionScore (length ?ps) k (length (splitSentences (?ps ! k))) l"
    using kl(5) assms(1) by simp
  have one: "k = 0" if "length ?ps = 1" using kl(1) that by simp
  have "l < length (splitSentences (?ps ! paragraph' s))
           \<and> paragraph' s < length ?ps
           \<and> text' s = splitSentences (?ps ! paragraph' s) ! l
           \<and> position s =
               max 0 (min 1
                 (if paragraph' s = 0
                  then fmul (basePositionScore (length (splitSentences (?ps ! paragraph' s))) l)
                            (round53 1.2)
                  else if paragraph' s = length ?ps - 1
                  then fmul (basePositionScore (length (splitSentences (?ps ! paragraph' s))) l)
                            (round53 1.1)
                  else basePositionScore (length (splitSentences (?ps ! paragraph' s))) l))
           \<and> (length ?ps = 1 \<longrightarrow>
                position s =
                  max 0 (min 1
                    (fmul (basePositionScore (length (splitSentences (?ps ! paragraph' s))) l)
                          (round53 1.2))))
           \<and> 0 \<le> position s \<and> position s \<le> 1"
    unfolding k using kl(1,2,4) one
    by (simp add: pos positionScore_def Let_def)
  then show ?thesis by blast
qed

theorem position_score_multiplier_witness:
  "favorPositionScore \<lparr>deduplicateSimilar = False, favorPositionScore = True\<rparr>
   \<and> documentSentences {} \<lparr>deduplicateSimilar = False, favorPositionScore = True\<rparr> ''A b. C d.'' ! 1
       \<in> set (documentSentences {} \<lparr>deduplicateSimilar = False, favorPositionScore = True\<rparr> ''A b. C d.'')
   \<and> (\<exists>s l. s = documentSentences {} \<lparr>deduplicateSimilar = False, favorPositionScore = True\<rparr> ''A b. C d.'' ! 1
         \<and> l < length (splitSentences (splitParagraphs ''A b. C d.'' ! paragraph' s))
         \<and> paragraph' s < length (splitParagraphs ''A b. C d.'')
         \<and> text' s = splitSentences (splitParagraphs ''A b. C d.'' ! paragraph' s) ! l
         \<and> position s =
               max 0 (min 1
                 (if paragraph' s = 0
                  then fmul (basePositionScore
                               (length (splitSentences (splitParagraphs ''A b. C d.'' ! paragraph' s))) l)
                            (round53 1.2)
                  else if paragraph' s = length (splitParagraphs ''A b. C d.'') - 1
                  then fmul (basePositionScore
                               (length (splitSentences (splitParagraphs ''A b. C d.'' ! paragraph' s))) l)
                            (round53 1.1)
                  else basePositionScore
                         (length (splitSentences (splitParagraphs ''A b. C d.'' ! paragraph' s))) l))
         \<and> 0 \<le> position s \<and> position s \<le> 1)"
proof -
  let ?o = "\<lparr>deduplicateSimilar = False, favorPositionScore = True\<rparr>"
  let ?d = "documentSentences {} ?o ''A b. C d.''"
  have f: "favorPositionScore ?o" by simp
  have m: "?d ! 1 \<in> set ?d"
    by (rule nth_mem) (simp add: length_two_sentences)
  from position_score_multiplier [OF f m]
  obtain l where "l < length (splitSentences (splitParagraphs ''A b. C d.'' ! paragraph' (?d ! 1)))
         \<and> paragraph' (?d ! 1) < length (splitParagraphs ''A b. C d.'')
         \<and> text' (?d ! 1) = splitSentences (splitParagraphs ''A b. C d.'' ! paragraph' (?d ! 1)) ! l
         \<and> position (?d ! 1) =
               max 0 (min 1
                 (if paragraph' (?d ! 1) = 0
                  then fmul (basePositionScore
                               (length (splitSentences (splitParagraphs ''A b. C d.'' ! paragraph' (?d ! 1)))) l)
                            (round53 1.2)
                  else if paragraph' (?d ! 1) = length (splitParagraphs ''A b. C d.'') - 1
                  then fmul (basePositionScore
                               (length (splitSentences (splitParagraphs ''A b. C d.'' ! paragraph' (?d ! 1)))) l)
                            (round53 1.1)
                  else basePositionScore
                         (length (splitSentences (splitParagraphs ''A b. C d.'' ! paragraph' (?d ! 1)))) l))
         \<and> 0 \<le> position (?d ! 1) \<and> position (?d ! 1) \<le> 1"
    by blast
  then show ?thesis using f m by blast
qed

end
